theory Spec2Isabelle
  imports Main "HOL-Library.Char_ord" "HOL-Library.List_Lexorder" "HOL-Library.Multiset"
begin

section \<open>Errors, produced values and factories\<close>

text \<open>
  The two errors of \<^verbatim>\<open>weave.go\<close>, each carrying the service name that is formatted into
  the message: \<^verbatim>\<open>service [%s] not found\<close> and \<^verbatim>\<open>service [%s] build failed\<close>.
\<close>

datatype error = NotFound string | BuildFailed string

fun message :: "error \<Rightarrow> string" where
  "message (NotFound name) = ''service ['' @ name @ ''] not found''"
| "message (BuildFailed name) = ''service ['' @ name @ ''] build failed''"

text \<open>
  What a builder of type \<^verbatim>\<open>func(T) any\<close> hands back: the nil interface, an interface
  holding a nil pointer, or an interface holding a pointer to a struct whose fields are
  \<open>v\<close>. Only the first compares equal to \<^verbatim>\<open>nil\<close> in \<^verbatim>\<open>build\<close>.
\<close>

datatype 'v iface = Nil | NilPtr | Ptr 'v

text \<open>
  A builder is a Go closure. What the container sees of it is a sequence of calls of
  \<^verbatim>\<open>GetService\<close> and then a result (or a panic). The answer to a request is the pair
  \<^verbatim>\<open>(any, error)\<close>: on success the pointer to the output slot of the requested entry
  (an address) together with the fields the slot holds at that moment.
\<close>

datatype ('r, 'v) factory =
    Return 'r
  | Request string "error + nat \<times> 'v \<Rightarrow> ('r, 'v) factory"
  | Abort

text \<open>\<^verbatim>\<open>MustMake\<close> panics on an error, \<^verbatim>\<open>TryMake\<close> reports it as a flag.\<close>

definition MustMake :: "string \<Rightarrow> (nat \<Rightarrow> 'v \<Rightarrow> ('r, 'v) factory) \<Rightarrow> ('r, 'v) factory" where
  "MustMake name k = Request name (\<lambda>r. case r of Inl err \<Rightarrow> Abort | Inr (p, v) \<Rightarrow> k p v)"

definition TryMake :: "string \<Rightarrow> ((nat \<times> 'v) option \<Rightarrow> ('r, 'v) factory) \<Rightarrow> ('r, 'v) factory" where
  "TryMake name k = Request name (\<lambda>r. case r of Inl err \<Rightarrow> k None | Inr pv \<Rightarrow> k (Some pv))"

section \<open>Entries and the container\<close>

text \<open>
  \<^verbatim>\<open>entry.instance\<close> is a pointer to the output slot allocated at registration. Entry and
  slot are allocated together, so the address of the entry stands for the pointer and
  the field \<open>instance'\<close> holds the fields of the slot.
\<close>

record ('c, 'v) entry =
  instance' :: 'v
  builder :: "('c option \<Rightarrow> ('v iface, 'v) factory) option"
  dependsOn :: "string list"
  built :: bool

text \<open>
  \<^verbatim>\<open>getServiceFunc\<close> is either the closure installed by \<^verbatim>\<open>New\<close> or the closure
  installed by \<^verbatim>\<open>build\<close>, which captures the entry under construction.
\<close>

datatype resolver = Passive | Recording nat

text \<open>
  The trace is not a field of the Go struct. It records the calls the container makes
  into user code and the slots it hands out, so that statements about them can be made:
  a builder invoked, a produced value copied into a slot, a slot handed to a builder by
  the recording resolver of an entry (with the fields it held), a ready callback run.
\<close>

datatype 'v event =
    Invoked nat
  | Produced nat 'v
  | Handed nat nat 'v
  | ReadyRun nat

text \<open>
  \<open>entries\<close> is the \<^verbatim>\<open>Map[string, *entry]\<close>; \<open>heap\<close> holds the entry objects by
  address and \<open>nextAddr\<close> is the next address to allocate. Ready callbacks are opaque
  closures, kept by an identifier. The container's \<^verbatim>\<open>built\<close> flag is \<open>wbuilt\<close>.
\<close>

record ('c, 'v) weave =
  ctx :: "'c option"
  entries :: "string \<Rightarrow> nat option"
  heap :: "nat \<Rightarrow> ('c, 'v) entry"
  nextAddr :: nat
  ready :: "nat list"
  wbuilt :: bool
  getServiceFunc :: resolver
  events :: "'v event list"

datatype 'a outcome = OutOfFuel | Panicked | Done 'a

definition New :: "('c, 'v::zero) weave" where
  "New = \<lparr>ctx = None, entries = (\<lambda>_. None),
          heap = (\<lambda>_. \<lparr>instance' = 0, builder = None, dependsOn = [], built = False\<rparr>),
          nextAddr = 0, ready = [], wbuilt = False, getServiceFunc = Passive, events = []\<rparr>"

definition SetCtx :: "'c \<Rightarrow> ('c, 'v) weave \<Rightarrow> ('c, 'v) weave" where
  "SetCtx c s = s\<lparr>ctx := Some c\<rparr>"

definition Ready :: "nat \<Rightarrow> ('c, 'v) weave \<Rightarrow> ('c, 'v) weave" where
  "Ready fn s = s\<lparr>ready := ready s @ [fn]\<rparr>"

definition assign ::
  "string \<Rightarrow> 'v \<Rightarrow> ('c option \<Rightarrow> ('v iface, 'v) factory) \<Rightarrow> ('c, 'v) weave \<Rightarrow> ('c, 'v) weave" where
  "assign name placeholder b s =
     s\<lparr>heap := (heap s)(nextAddr s :=
           \<lparr>instance' = placeholder, builder = Some b, dependsOn = [], built = False\<rparr>),
       nextAddr := Suc (nextAddr s),
       entries := (entries s)(name \<mapsto> nextAddr s),
       wbuilt := False\<rparr>"

text \<open>
  \<^verbatim>\<open>Provide\<close> allocates \<^verbatim>\<open>new(R)\<close>, the zero value of the result type, and wraps the
  typed builder: its \<^verbatim>\<open>*R\<close> becomes an interface that holds a pointer, nil or not.
\<close>

definition toAny :: "'v option \<Rightarrow> 'v iface" where
  "toAny p = (case p of None \<Rightarrow> NilPtr | Some v \<Rightarrow> Ptr v)"

definition Provide ::
  "string \<Rightarrow> ('c option \<Rightarrow> ('v option, 'v) factory) \<Rightarrow> ('c, 'v::zero) weave \<Rightarrow> ('c, 'v) weave" where
  "Provide name b s = assign name 0 (\<lambda>c. map_factory toAny (b c)) s"

section \<open>The build engine\<close>

definition setBuilt :: "nat \<Rightarrow> bool \<Rightarrow> ('c, 'v) weave \<Rightarrow> ('c, 'v) weave" where
  "setBuilt a b s = s\<lparr>heap := (heap s)(a := (heap s a)\<lparr>built := b\<rparr>)\<rparr>"

definition setInstance :: "nat \<Rightarrow> 'v \<Rightarrow> ('c, 'v) weave \<Rightarrow> ('c, 'v) weave" where
  "setInstance a v s = s\<lparr>heap := (heap s)(a := (heap s a)\<lparr>instance' := v\<rparr>)\<rparr>"

definition appendDep :: "nat \<Rightarrow> string \<Rightarrow> ('c, 'v) weave \<Rightarrow> ('c, 'v) weave" where
  "appendDep a name s =
     s\<lparr>heap := (heap s)(a := (heap s a)\<lparr>dependsOn := dependsOn (heap s a) @ [name]\<rparr>)\<rparr>"

definition emit :: "'v event \<Rightarrow> ('c, 'v) weave \<Rightarrow> ('c, 'v) weave" where
  "emit ev s = s\<lparr>events := events s @ [ev]\<rparr>"

text \<open>
  \<^verbatim>\<open>build\<close>, the body of a builder and the current resolver call one another. The first
  argument bounds the depth of calls; \<open>OutOfFuel\<close> says the bound was reached.
  \<open>build n name a\<close> is \<^verbatim>\<open>s.build(name, entry)\<close> for the entry at address \<open>a\<close>;
  \<open>run\<close> executes a builder's body; \<open>GetService\<close> is \<^verbatim>\<open>s.getServiceFunc(name)\<close>.
  On the failure path \<^verbatim>\<open>build\<close> returns before the assignment that puts
  \<^verbatim>\<open>originalFunc\<close> back. Copying through a nil pointer panics inside \<^verbatim>\<open>reflect\<close>.
\<close>

fun build :: "nat \<Rightarrow> string \<Rightarrow> nat \<Rightarrow> ('c, 'v) weave \<Rightarrow> (error option \<times> ('c, 'v) weave) outcome"
and run :: "nat \<Rightarrow> ('v iface, 'v) factory \<Rightarrow> ('c, 'v) weave \<Rightarrow> ('v iface \<times> ('c, 'v) weave) outcome"
and GetService :: "nat \<Rightarrow> string \<Rightarrow> ('c, 'v) weave \<Rightarrow> ((error + nat \<times> 'v) \<times> ('c, 'v) weave) outcome"
where
  "build 0 name a s = OutOfFuel"
| "build (Suc n) name a s =
     (if built (heap s a) then Done (None, s)
      else
        let originalFunc = getServiceFunc s;
            s1 = setBuilt a True (s\<lparr>getServiceFunc := Recording a\<rparr>)
        in case builder (heap s1 a) of
             None \<Rightarrow> Panicked
           | Some b \<Rightarrow>
               (case run n (b (ctx s1)) (emit (Invoked a) s1) of
                  OutOfFuel \<Rightarrow> OutOfFuel
                | Panicked \<Rightarrow> Panicked
                | Done (Nil, s2) \<Rightarrow> Done (Some (BuildFailed name), setBuilt a False s2)
                | Done (NilPtr, s2) \<Rightarrow> Panicked
                | Done (Ptr v, s2) \<Rightarrow>
                    Done (None, (emit (Produced a v) (setInstance a v s2))
                                  \<lparr>getServiceFunc := originalFunc\<rparr>)))"
| "run 0 f s = OutOfFuel"
| "run (Suc n) (Return i) s = Done (i, s)"
| "run (Suc n) Abort s = Panicked"
| "run (Suc n) (Request name k) s =
     (case GetService n name s of
        OutOfFuel \<Rightarrow> OutOfFuel
      | Panicked \<Rightarrow> Panicked
      | Done (r, s') \<Rightarrow> run n (k r) s')"
| "GetService 0 name s = OutOfFuel"
| "GetService (Suc n) name s =
     (case getServiceFunc s of
        Passive \<Rightarrow>
          (case entries s name of
             Some e \<Rightarrow> Done (Inr (e, instance' (heap s e)), s)
           | None \<Rightarrow> Done (Inl (NotFound name), s))
      | Recording d \<Rightarrow>
          (case entries s name of
             None \<Rightarrow> Done (Inl (NotFound name), s)
           | Some e \<Rightarrow>
               let s1 = appendDep d name s in
               if \<not> built (heap s1 e) then
                 (case build n name e s1 of
                    OutOfFuel \<Rightarrow> OutOfFuel
                  | Panicked \<Rightarrow> Panicked
                  | Done (Some err, s2) \<Rightarrow> Done (Inl err, s2)
                  | Done (None, s2) \<Rightarrow>
                      Done (Inr (e, instance' (heap s2 e)),
                            emit (Handed d e (instance' (heap s2 e))) s2))
               else Done (Inr (e, instance' (heap s1 e)),
                          emit (Handed d e (instance' (heap s1 e))) s1)))"

text \<open>
  \<^verbatim>\<open>entries.Range\<close> visits the keys of a Go map in an unspecified order; the order of
  one traversal is the list \<open>names\<close>. The callback stops the traversal at the first error.
\<close>

fun Range_build ::
  "nat \<Rightarrow> string list \<Rightarrow> ('c, 'v) weave \<Rightarrow> (error option \<times> ('c, 'v) weave) outcome" where
  "Range_build n [] s = Done (None, s)"
| "Range_build n (name # names) s =
     (case entries s name of
        None \<Rightarrow> Range_build n names s
      | Some a \<Rightarrow>
          (case build n name a s of
             Done (None, s') \<Rightarrow> Range_build n names s'
           | r \<Rightarrow> r))"

definition Build ::
  "nat \<Rightarrow> string list \<Rightarrow> ('c, 'v) weave \<Rightarrow> (error option \<times> ('c, 'v) weave) outcome" where
  "Build n names s =
     (if wbuilt s then Done (None, s)
      else case Range_build n names s of
             Done (None, s') \<Rightarrow>
               Done (None, s'\<lparr>wbuilt := True, events := events s' @ map ReadyRun (ready s')\<rparr>)
           | r \<Rightarrow> r)"

section \<open>The dependency graph\<close>

text \<open>A Go \<^verbatim>\<open>map[string][]string\<close>; reading a missing key gives the nil slice.\<close>

type_synonym adjacency = "string \<Rightarrow> string list option"

definition adj :: "adjacency \<Rightarrow> string \<Rightarrow> string list" where
  "adj m name = (case m name of None \<Rightarrow> [] | Some ds \<Rightarrow> ds)"

record DependencyGraph =
  Dependencies :: adjacency
  Dependents :: adjacency

text \<open>The inner loop of the inversion: one \<^verbatim>\<open>append\<close> per recorded dependency.\<close>

fun add_dependents :: "string \<Rightarrow> string list \<Rightarrow> adjacency \<Rightarrow> adjacency" where
  "add_dependents serviceName [] dependents = dependents"
| "add_dependents serviceName (dep # deps) dependents =
     add_dependents serviceName deps (dependents(dep \<mapsto> adj dependents dep @ [serviceName]))"

fun invert :: "adjacency \<Rightarrow> string list \<Rightarrow> adjacency \<Rightarrow> adjacency" where
  "invert dependencies [] dependents = dependents"
| "invert dependencies (serviceName # names) dependents =
     invert dependencies names (add_dependents serviceName (adj dependencies serviceName) dependents)"

text \<open>
  \<^verbatim>\<open>GetDependencyGraph\<close>. The first loop copies \<^verbatim>\<open>dependsOn\<close> of every entry and gives
  every entry an empty list of dependents; the last loop sorts both lists of every key of
  \<^verbatim>\<open>dependencies\<close>. Each of their iterations touches its own key only, so they are written
  key by key. The loop between them appends, so the order \<open>names\<close> in which it ranges over
  \<^verbatim>\<open>dependencies\<close> is a parameter.
\<close>

definition GetDependencyGraph :: "string list \<Rightarrow> ('c, 'v) weave \<Rightarrow> DependencyGraph" where
  "GetDependencyGraph names s =
     (let dependencies = (\<lambda>name. case entries s name of
                                    None \<Rightarrow> None
                                  | Some a \<Rightarrow> Some (dependsOn (heap s a)));
          dependents0 = (\<lambda>name. case entries s name of None \<Rightarrow> None | Some a \<Rightarrow> Some []);
          dependents = invert dependencies names dependents0
      in \<lparr>Dependencies = (\<lambda>name. map_option sort (dependencies name)),
          Dependents = (\<lambda>name. if dependencies name = None then dependents name
                                else map_option sort (dependents name))\<rparr>)"

section \<open>Cycle detection\<close>

text \<open>
  The walk back over \<^verbatim>\<open>path\<close> from its last element, up to and including the first
  element met that equals \<open>node\<close>; the argument is the path reversed.
\<close>

fun walk_back :: "string \<Rightarrow> string list \<Rightarrow> string list" where
  "walk_back node [] = []"
| "walk_back node (p # ps) = p # (if p = node then [] else walk_back node ps)"

text \<open>
  The closure \<^verbatim>\<open>dfs\<close> of \<^verbatim>\<open>detectCircularDependency\<close> with its captured variables
  \<^verbatim>\<open>visited\<close>, \<^verbatim>\<open>visiting\<close> and \<^verbatim>\<open>path\<close> passed along; \<open>dfs_deps\<close> is its loop over
  the dependencies of a node. \<open>None\<close> says the bound on the depth of calls was reached.
\<close>

type_synonym dfs_state = "(string \<Rightarrow> bool) \<times> (string \<Rightarrow> bool) \<times> string list"

fun dfs :: "nat \<Rightarrow> adjacency \<Rightarrow> string \<Rightarrow> dfs_state \<Rightarrow> ((bool \<times> string list) \<times> dfs_state) option"
and dfs_deps :: "nat \<Rightarrow> adjacency \<Rightarrow> string list \<Rightarrow> dfs_state \<Rightarrow> ((bool \<times> string list) \<times> dfs_state) option"
where
  "dfs 0 dependencies node st = None"
| "dfs (Suc n) dependencies node (visited, visiting, path) =
     (if visiting node then
        Some ((True, node # walk_back node (rev path)), (visited, visiting, path))
      else if visited node then Some ((False, []), (visited, visiting, path))
      else
        (case dfs_deps n dependencies (adj dependencies node)
                (visited, visiting(node := True), path @ [node]) of
           None \<Rightarrow> None
         | Some ((True, cycle), st') \<Rightarrow> Some ((True, cycle), st')
         | Some ((False, _), (visited', visiting', path')) \<Rightarrow>
             Some ((False, []), (visited'(node := True), visiting'(node := False), butlast path'))))"
| "dfs_deps n dependencies [] st = Some ((False, []), st)"
| "dfs_deps n dependencies (dep # deps) st =
     (case dfs n dependencies dep st of
        None \<Rightarrow> None
      | Some ((True, cycle), st') \<Rightarrow> Some ((True, cycle), st')
      | Some ((False, _), st') \<Rightarrow> dfs_deps n dependencies deps st')"

text \<open>The loop over the keys of \<^verbatim>\<open>dependencies\<close>, visited in the order \<open>names\<close>.\<close>

fun dfs_roots :: "nat \<Rightarrow> adjacency \<Rightarrow> string list \<Rightarrow> dfs_state \<Rightarrow> (bool \<times> string list) option" where
  "dfs_roots n dependencies [] st = Some (False, [])"
| "dfs_roots n dependencies (node # names) (visited, visiting, path) =
     (if \<not> visited node then
        (case dfs n dependencies node (visited, visiting, path) of
           None \<Rightarrow> None
         | Some ((True, cycle), st') \<Rightarrow> Some (True, cycle)
         | Some ((False, _), st') \<Rightarrow> dfs_roots n dependencies names st')
      else dfs_roots n dependencies names (visited, visiting, path))"

definition detectCircularDependency ::
  "nat \<Rightarrow> string list \<Rightarrow> adjacency \<Rightarrow> (bool \<times> string list) option" where
  "detectCircularDependency n names dependencies =
     dfs_roots n dependencies names ((\<lambda>_. False), (\<lambda>_. False), [])"

text \<open>
  \<open>names1\<close> is the order of the appending loop of \<^verbatim>\<open>GetDependencyGraph\<close>, \<open>names2\<close>
  the order in which the detector ranges over the keys.
\<close>

definition HasCircularDependency ::
  "nat \<Rightarrow> string list \<Rightarrow> string list \<Rightarrow> ('c, 'v) weave \<Rightarrow> (bool \<times> string list) option" where
  "HasCircularDependency n names1 names2 s =
     detectCircularDependency n names2 (Dependencies (GetDependencyGraph names1 s))"

section \<open>Enumeration of all cycles\<close>

text \<open>The index of the first element of \<^verbatim>\<open>path\<close> equal to \<open>node\<close>, if there is one.\<close>

fun cycleStart :: "string \<Rightarrow> string list \<Rightarrow> nat option" where
  "cycleStart node [] = None"
| "cycleStart node (p # ps) =
     (if p = node then Some 0 else map_option Suc (cycleStart node ps))"

fun findAllCyclesFromNode ::
  "nat \<Rightarrow> string \<Rightarrow> adjacency \<Rightarrow> (string \<Rightarrow> bool) \<Rightarrow> (string \<Rightarrow> bool) \<Rightarrow> string list
     \<Rightarrow> (string list list \<times> (string \<Rightarrow> bool) \<times> (string \<Rightarrow> bool)) option"
and findAllCycles_deps ::
  "nat \<Rightarrow> string list \<Rightarrow> adjacency \<Rightarrow> (string \<Rightarrow> bool) \<Rightarrow> (string \<Rightarrow> bool) \<Rightarrow> string list
     \<Rightarrow> (string list list \<times> (string \<Rightarrow> bool) \<times> (string \<Rightarrow> bool)) option"
where
  "findAllCyclesFromNode 0 node dependencies visited visiting path = None"
| "findAllCyclesFromNode (Suc n) node dependencies visited visiting path =
     (if visiting node then
        (case cycleStart node path of
           None \<Rightarrow> Some ([], visited, visiting)
         | Some i \<Rightarrow> Some ([drop i path @ [node]], visited, visiting))
      else if visited node then Some ([], visited, visiting)
      else
        (case findAllCycles_deps n (adj dependencies node) dependencies
                visited (visiting(node := True)) (path @ [node]) of
           None \<Rightarrow> None
         | Some (cycles, visited', visiting') \<Rightarrow>
             Some (cycles, visited'(node := True), visiting'(node := False))))"
| "findAllCycles_deps n [] dependencies visited visiting path = Some ([], visited, visiting)"
| "findAllCycles_deps n (dep # deps) dependencies visited visiting path =
     (case findAllCyclesFromNode n dep dependencies visited visiting path of
        None \<Rightarrow> None
      | Some (subCycles, visited', visiting') \<Rightarrow>
          (case findAllCycles_deps n deps dependencies visited' visiting' path of
             None \<Rightarrow> None
           | Some (cycles, visited'', visiting'') \<Rightarrow>
               Some (subCycles @ cycles, visited'', visiting'')))"

text \<open>The index the loop of \<^verbatim>\<open>normalizeCycle\<close> ends with: the first smallest element.\<close>

definition minIdx :: "string list \<Rightarrow> nat" where
  "minIdx cycle = foldl (\<lambda>m i. if cycle ! i < cycle ! m then i else m) 0 [0..<length cycle]"

definition normalizeCycle :: "string list \<Rightarrow> string list" where
  "normalizeCycle cycle =
     (if length cycle \<le> 1 then cycle
      else map (\<lambda>i. cycle ! ((minIdx cycle + i) mod length cycle)) [0..<length cycle])"

text \<open>\<^verbatim>\<open>strings.Join\<close>.\<close>

fun join :: "string list \<Rightarrow> string \<Rightarrow> string" where
  "join [] sep = []"
| "join [x] sep = x"
| "join (x # y # ys) sep = x @ sep @ join (y # ys) sep"

fun dedup_loop ::
  "(string \<Rightarrow> bool) \<Rightarrow> string list list \<Rightarrow> string list list \<Rightarrow> string list list" where
  "dedup_loop seen result [] = result"
| "dedup_loop seen result (cycle # cycles) =
     (if length cycle \<le> 1 then dedup_loop seen result cycles
      else
        let normalized = normalizeCycle cycle;
            key = join normalized ''->''
        in if \<not> seen key then dedup_loop (seen(key := True)) (result @ [normalized]) cycles
           else dedup_loop seen result cycles)"

definition deduplicateCycles :: "string list list \<Rightarrow> string list list" where
  "deduplicateCycles cycles = dedup_loop (\<lambda>_. False) [] cycles"

text \<open>
  The loop of \<^verbatim>\<open>GetAllCircularDependencies\<close> over the keys, in the order \<open>names\<close>. Its
  own \<^verbatim>\<open>visited\<close> map marks the roots already used; every search starts from fresh maps.
\<close>

fun allCycles_loop ::
  "nat \<Rightarrow> adjacency \<Rightarrow> (string \<Rightarrow> bool) \<Rightarrow> string list \<Rightarrow> string list list option" where
  "allCycles_loop n dependencies visited [] = Some []"
| "allCycles_loop n dependencies visited (node # names) =
     (if \<not> visited node then
        (case findAllCyclesFromNode n node dependencies (\<lambda>_. False) (\<lambda>_. False) [] of
           None \<Rightarrow> None
         | Some (cycles, _, _) \<Rightarrow>
             map_option ((@) cycles) (allCycles_loop n dependencies (visited(node := True)) names))
      else allCycles_loop n dependencies visited names)"

definition GetAllCircularDependencies ::
  "nat \<Rightarrow> string list \<Rightarrow> string list \<Rightarrow> ('c, 'v) weave \<Rightarrow> string list list option" where
  "GetAllCircularDependencies n names1 names2 s =
     map_option deduplicateCycles
       (allCycles_loop n (Dependencies (GetDependencyGraph names1 s)) (\<lambda>_. False) names2)"

section \<open>Compaction and extraction\<close>

text \<open>The callback of \<^verbatim>\<open>Compact\<close> on the entries, visited in the order \<open>names\<close>.\<close>

fun Range_compact :: "string list \<Rightarrow> ('c, 'v) weave \<Rightarrow> ('c, 'v) weave" where
  "Range_compact [] s = s"
| "Range_compact (name # names) s =
     (case entries s name of
        None \<Rightarrow> Range_compact names s
      | Some a \<Rightarrow>
          Range_compact names (s\<lparr>heap := (heap s)(a := (heap s a)\<lparr>builder := None, dependsOn := []\<rparr>)\<rparr>))"

definition Compact :: "string list \<Rightarrow> ('c, 'v) weave \<Rightarrow> ('c, 'v) weave outcome" where
  "Compact names s =
     (if \<not> wbuilt s then Panicked
      else Done (Range_compact names (s\<lparr>ctx := None, ready := []\<rparr>)))"

text \<open>The registry returned by \<^verbatim>\<open>Extract\<close> maps a name to the pointer to its slot.\<close>

fun Range_extract :: "string list \<Rightarrow> ('c, 'v) weave \<Rightarrow> (string \<Rightarrow> nat option) \<Rightarrow> (string \<Rightarrow> nat option)" where
  "Range_extract [] s registry = registry"
| "Range_extract (name # names) s registry =
     (case entries s name of
        None \<Rightarrow> Range_extract names s registry
      | Some a \<Rightarrow>
          Range_extract names s (if built (heap s a) then registry(name \<mapsto> a) else registry))"

definition Extract :: "string list \<Rightarrow> ('c, 'v) weave \<Rightarrow> (string \<Rightarrow> nat option) outcome" where
  "Extract names s =
     (if \<not> wbuilt s then Panicked else Done (Range_extract names s (\<lambda>_. None)))"

section \<open>Shape of a detected cycle\<close>

definition nodes :: "string list \<Rightarrow> adjacency \<Rightarrow> string set" where
  "nodes names dependencies = set names \<union> {x. \<exists>k. x \<in> set (adj dependencies k)}"

definition closed_walk :: "string set \<Rightarrow> string list \<Rightarrow> bool" where
  "closed_walk N c = (2 \<le> length c \<and> hd c = last c \<and> set c \<subseteq> N)"

definition on_path :: "string set \<Rightarrow> dfs_state \<Rightarrow> bool" where
  "on_path N st = (case st of (visited, visiting, path) \<Rightarrow>
      (\<forall>x. visiting x \<longrightarrow> x \<in> set path) \<and> set path \<subseteq> N)"

lemma walk_back_props:
  "node \<in> set ps \<Longrightarrow>
     walk_back node ps \<noteq> [] \<and> last (walk_back node ps) = node \<and> set (walk_back node ps) \<subseteq> set ps"
  by (induction ps) auto

lemma closed_walk_found:
  assumes "node \<in> set path" "set path \<subseteq> N"
  shows "closed_walk N (node # walk_back node (rev path))"
  using walk_back_props[of node "rev path"] assms
  by (auto simp: closed_walk_def Suc_le_eq)

lemma adj_nodes: "x \<in> set (adj dependencies k) \<Longrightarrow> x \<in> nodes names dependencies"
  by (auto simp: nodes_def)

lemma dfs_shape:
  "(dfs n dependencies node st = Some (res, st') \<longrightarrow> on_path N st \<longrightarrow> node \<in> N \<longrightarrow>
      (\<forall>k. set (adj dependencies k) \<subseteq> N) \<longrightarrow>
      (if fst res then closed_walk N (snd res)
       else on_path N st' \<and> snd (snd st') = snd (snd st)))"
  "(dfs_deps n dependencies deps st = Some (res, st') \<longrightarrow> on_path N st \<longrightarrow> set deps \<subseteq> N \<longrightarrow>
      (\<forall>k. set (adj dependencies k) \<subseteq> N) \<longrightarrow>
      (if fst res then closed_walk N (snd res)
       else on_path N st' \<and> snd (snd st') = snd (snd st)))"
proof (induction n dependencies node st and n dependencies deps st arbitrary: res st' and res st'
        rule: dfs_dfs_deps.induct)
  case (1 dependencies node st)
  then show ?case by simp
next
  case (2 n dependencies node visited visiting path)
  show ?case
  proof (intro impI)
    assume run: "dfs (Suc n) dependencies node (visited, visiting, path) = Some (res, st')"
      and inv: "on_path N (visited, visiting, path)" and nd: "node \<in> N"
      and cl: "\<forall>k. set (adj dependencies k) \<subseteq> N"
    show "if fst res then closed_walk N (snd res)
          else on_path N st' \<and> snd (snd st') = snd (snd (visited, visiting, path))"
    proof (cases "visiting node")
      case True
      with run inv show ?thesis
        by (auto simp: on_path_def intro!: closed_walk_found)
    next
      case nv: False
      show ?thesis
      proof (cases "visited node")
        case True
        with nv run inv show ?thesis by auto
      next
        case False
        let ?st1 = "(visited, visiting(node := True), path @ [node])"
        from nv False run obtain r1 s1 where
          sub: "dfs_deps n dependencies (adj dependencies node) ?st1 = Some (r1, s1)"
          by (auto split: option.splits)
        have inv1: "on_path N ?st1" using inv nd by (auto simp: on_path_def)
        from "2.IH"[OF nv False, of r1 s1] sub inv1 cl
        have post: "if fst r1 then closed_walk N (snd r1)
                    else on_path N s1 \<and> snd (snd s1) = path @ [node]"
          by auto
        show ?thesis
        proof (cases "fst r1")
          case True
          with nv False run sub post show ?thesis
            by (cases r1) (auto split: option.splits prod.splits bool.splits)
        next
          case f: False
          obtain vd vg p where s1: "s1 = (vd, vg, p)" by (cases s1) auto
          with f post have p: "p = path @ [node]" and o: "on_path N (vd, vg, p)" by auto
          from nv False run sub f s1 have
            "res = (False, [])" "st' = (vd(node := True), vg(node := False), butlast p)"
            by (cases r1; auto split: option.splits prod.splits bool.splits)+
          with p o show ?thesis by (auto simp: on_path_def split: if_splits)
        qed
      qed
    qed
  qed
next
  case (3 n dependencies st)
  then show ?case by auto
next
  case (4 n dependencies dep deps st)
  show ?case
  proof (intro impI)
    assume run: "dfs_deps n dependencies (dep # deps) st = Some (res, st')"
      and inv: "on_path N st" and nd: "set (dep # deps) \<subseteq> N"
      and cl: "\<forall>k. set (adj dependencies k) \<subseteq> N"
    from run obtain r1 s1 where sub: "dfs n dependencies dep st = Some (r1, s1)"
      by (auto split: option.splits)
    from "4.IH"(1)[of r1 s1] sub inv nd cl
    have post: "if fst r1 then closed_walk N (snd r1)
                else on_path N s1 \<and> snd (snd s1) = snd (snd st)" by auto
    show "if fst res then closed_walk N (snd res)
          else on_path N st' \<and> snd (snd st') = snd (snd st)"
    proof (cases "fst r1")
      case True
      with run sub post show ?thesis
        by (cases r1) (auto split: option.splits prod.splits bool.splits)
    next
      case False
      obtain c where r1: "r1 = (False, c)" using False by (cases r1) auto
      from run sub r1 have rest: "dfs_deps n dependencies deps s1 = Some (res, st')" by simp
      from "4.IH"(2)[OF sub[unfolded r1] refl, of "False" "c" res st'] rest post False nd cl
      show ?thesis by auto
    qed
  qed
qed

section \<open>Inverting the recorded dependencies\<close>

definition deps_registered :: "('c, 'v) weave \<Rightarrow> bool" where
  "deps_registered s =
     (\<forall>name a m. entries s name = Some a \<longrightarrow> m \<in> set (dependsOn (heap s a)) \<longrightarrow> entries s m \<noteq> None)"

lemma adj_add_dependents:
  "adj (add_dependents sn ds d) m = adj d m @ replicate (count_list ds m) sn"
  by (induction ds arbitrary: d) (auto simp: adj_def replicate_append_same)

lemma dom_add_dependents: "dom (add_dependents sn ds d) = dom d \<union> set ds"
  by (induction ds arbitrary: d) auto

lemma dom_invert:
  "dom (invert deps names d) = dom d \<union> (\<Union>n\<in>set names. set (adj deps n))"
  by (induction names arbitrary: d) (auto simp: dom_add_dependents)

lemma count_list_replicate: "count_list (replicate k x) y = (if x = y then k else 0)"
  by (induction k) auto

lemma count_invert:
  "count_list (adj (invert deps names d) m) N =
     count_list (adj d m) N + count_list names N * count_list (adj deps N) m"
  by (induction names arbitrary: d) (auto simp: adj_add_dependents count_list_replicate)

lemma count_list_sort: "count_list (sort xs) x = count_list xs (x::string)"
  by (metis count_mset mset_sort)

lemma adj_map_option_sort: "adj (\<lambda>n. map_option sort (f n)) m = sort (adj f m)"
  by (auto simp: adj_def split: option.splits)

lemma graph_symmetry_registered:
  assumes "distinct names" "set names = dom (entries s)" "deps_registered s"
  shows "(\<forall>N M. count_list (adj (Dependencies (GetDependencyGraph names s)) N) M
              = count_list (adj (Dependents (GetDependencyGraph names s)) M) N)
       \<and> (\<forall>N. sorted (adj (Dependencies (GetDependencyGraph names s)) N)
              \<and> sorted (adj (Dependents (GetDependencyGraph names s)) N))
       \<and> dom (Dependencies (GetDependencyGraph names s)) = dom (entries s)
       \<and> dom (Dependents (GetDependencyGraph names s)) = dom (entries s)"
proof -
  define deps where "deps = (\<lambda>name. case entries s name of
      None \<Rightarrow> None | Some a \<Rightarrow> Some (dependsOn (heap s a)))"
  define d0 :: adjacency where "d0 = (\<lambda>name. case entries s name of None \<Rightarrow> None | Some a \<Rightarrow> Some [])"
  define dts where "dts = invert deps names d0"
  have g1: "Dependencies (GetDependencyGraph names s) = (\<lambda>name. map_option sort (deps name))"
    unfolding GetDependencyGraph_def deps_def Let_def by simp
  have g2: "Dependents (GetDependencyGraph names s) =
      (\<lambda>name. if deps name = None then dts name else map_option sort (dts name))"
    unfolding GetDependencyGraph_def deps_def d0_def dts_def Let_def by simp
  have domdeps: "dom deps = dom (entries s)" by (auto simp: deps_def split: option.splits)
  have domd0: "dom d0 = dom (entries s)" by (auto simp: d0_def split: option.splits)
  have adjd0: "adj d0 m = []" for m by (auto simp: adj_def d0_def split: option.splits)
  have reg: "set (adj deps n) \<subseteq> dom (entries s)" for n
    using assms(3) by (auto simp: deps_registered_def adj_def deps_def split: option.splits)
  have domdts: "dom dts = dom (entries s)"
    using reg by (auto simp: dts_def dom_invert domd0)
  have adj2: "adj (Dependents (GetDependencyGraph names s)) m = sort (adj dts m)" for m
  proof (cases "deps m")
    case None
    then have "m \<notin> dom dts" using domdts domdeps by auto
    with None show ?thesis by (auto simp: g2 adj_def split: option.splits)
  next
    case (Some a)
    then show ?thesis by (auto simp: g2 adj_def split: option.splits)
  qed
  have cnt: "count_list (adj deps N) M = count_list (adj dts M) N" for N M
  proof (cases "N \<in> set names")
    case True
    with assms(1) have "count_list names N = 1"
      by (metis count_list_0_iff count_mset distinct_count_atmost_1)
    then show ?thesis by (simp add: dts_def count_invert adjd0)
  next
    case False
    then have "deps N = None" using assms(2) domdeps by auto
    then have "adj deps N = []" by (simp add: adj_def)
    with False show ?thesis by (simp add: dts_def count_invert adjd0)
  qed
  have adj1: "adj (Dependencies (GetDependencyGraph names s)) m = sort (adj deps m)" for m
    by (simp add: g1 adj_map_option_sort)
  have c1: "\<forall>N M. count_list (adj (Dependencies (GetDependencyGraph names s)) N) M
              = count_list (adj (Dependents (GetDependencyGraph names s)) M) N"
    by (simp add: adj1 adj2 count_list_sort cnt)
  have c2: "\<forall>N. sorted (adj (Dependencies (GetDependencyGraph names s)) N)
              \<and> sorted (adj (Dependents (GetDependencyGraph names s)) N)"
    by (simp add: adj1 adj2)
  have c3: "dom (Dependencies (GetDependencyGraph names s)) = dom (entries s)"
    using domdeps by (auto simp: g1 dom_def)
  have c4: "dom (Dependents (GetDependencyGraph names s)) = dom (entries s)"
    using domdts domdeps by (auto simp: g2 dom_def split: if_splits)
  from c1 c2 c3 c4 show ?thesis by blast
qed

lemma Range_compact_entries [simp]: "entries (Range_compact names s) = entries s"
  by (induction names arbitrary: s) (auto split: option.splits)

lemma Range_compact_wbuilt [simp]: "wbuilt (Range_compact names s) = wbuilt s"
  by (induction names arbitrary: s) (auto split: option.splits)

lemma Range_compact_keeps_empty:
  "dependsOn (heap s a) = [] \<Longrightarrow> dependsOn (heap (Range_compact names s) a) = []"
  by (induction names arbitrary: s) (auto split: option.splits)

lemma Range_compact_clears:
  "entries s name = Some a \<Longrightarrow> name \<in> set names \<Longrightarrow> dependsOn (heap (Range_compact names s) a) = []"
  by (induction names arbitrary: s) (auto split: option.splits intro: Range_compact_keeps_empty)

lemma invert_no_edges: "(\<forall>n. adj deps n = []) \<Longrightarrow> invert deps names d = d"
  by (induction names arbitrary: d) auto

lemma Build_success_wbuilt: "Build n names s = Done (None, s') \<Longrightarrow> wbuilt s'"
  by (auto simp: Build_def split: if_splits outcome.splits option.splits prod.splits)


section \<open>What a build may change\<close>

lemma setBuilt_simps [simp]:
  "entries (setBuilt a b s) = entries s" "ctx (setBuilt a b s) = ctx s"
  "ready (setBuilt a b s) = ready s" "wbuilt (setBuilt a b s) = wbuilt s"
  "nextAddr (setBuilt a b s) = nextAddr s" "events (setBuilt a b s) = events s"
  "getServiceFunc (setBuilt a b s) = getServiceFunc s"
  "built (heap (setBuilt a b s) x) = (if x = a then b else built (heap s x))"
  "instance' (heap (setBuilt a b s) x) = instance' (heap s x)"
  "dependsOn (heap (setBuilt a b s) x) = dependsOn (heap s x)"
  "builder (heap (setBuilt a b s) x) = builder (heap s x)"
  by (simp_all add: setBuilt_def)

lemma setInstance_simps [simp]:
  "entries (setInstance a v s) = entries s" "ctx (setInstance a v s) = ctx s"
  "ready (setInstance a v s) = ready s" "wbuilt (setInstance a v s) = wbuilt s"
  "nextAddr (setInstance a v s) = nextAddr s" "events (setInstance a v s) = events s"
  "getServiceFunc (setInstance a v s) = getServiceFunc s"
  "built (heap (setInstance a v s) x) = built (heap s x)"
  "instance' (heap (setInstance a v s) x) = (if x = a then v else instance' (heap s x))"
  "dependsOn (heap (setInstance a v s) x) = dependsOn (heap s x)"
  "builder (heap (setInstance a v s) x) = builder (heap s x)"
  by (simp_all add: setInstance_def)

lemma appendDep_simps [simp]:
  "entries (appendDep a m s) = entries s" "ctx (appendDep a m s) = ctx s"
  "ready (appendDep a m s) = ready s" "wbuilt (appendDep a m s) = wbuilt s"
  "nextAddr (appendDep a m s) = nextAddr s" "events (appendDep a m s) = events s"
  "getServiceFunc (appendDep a m s) = getServiceFunc s"
  "built (heap (appendDep a m s) x) = built (heap s x)"
  "instance' (heap (appendDep a m s) x) = instance' (heap s x)"
  "dependsOn (heap (appendDep a m s) x) = (if x = a then dependsOn (heap s x) @ [m] else dependsOn (heap s x))"
  "builder (heap (appendDep a m s) x) = builder (heap s x)"
  by (simp_all add: appendDep_def)

lemma emit_simps [simp]:
  "entries (emit ev s) = entries s" "ctx (emit ev s) = ctx s"
  "ready (emit ev s) = ready s" "wbuilt (emit ev s) = wbuilt s"
  "nextAddr (emit ev s) = nextAddr s" "events (emit ev s) = events s @ [ev]"
  "getServiceFunc (emit ev s) = getServiceFunc s"
  "heap (emit ev s) = heap s"
  by (simp_all add: emit_def)

lemma build_Suc_elim:
  assumes "build (Suc n) name a s = Done (r, s')"
  obtains (already) "built (heap s a)" "r = None" "s' = s"
  | (failed) b s2 where "\<not> built (heap s a)" "builder (heap s a) = Some b"
      "run n (b (ctx s)) (emit (Invoked a) (setBuilt a True (s\<lparr>getServiceFunc := Recording a\<rparr>))) = Done (Nil, s2)"
      "r = Some (BuildFailed name)" "s' = setBuilt a False s2"
  | (succeeded) b v s2 where "\<not> built (heap s a)" "builder (heap s a) = Some b"
      "run n (b (ctx s)) (emit (Invoked a) (setBuilt a True (s\<lparr>getServiceFunc := Recording a\<rparr>))) = Done (Ptr v, s2)"
      "r = None" "s' = (emit (Produced a v) (setInstance a v s2))\<lparr>getServiceFunc := getServiceFunc s\<rparr>"
  using assms
  by (auto simp: Let_def split: if_splits option.splits outcome.splits prod.splits iface.splits)

lemma GetService_Suc_elim:
  assumes "GetService (Suc n) name s = Done (r, s')"
  obtains (lookup) "getServiceFunc s = Passive" "s' = s"
      "r = (case entries s name of Some e \<Rightarrow> Inr (e, instance' (heap s e)) | None \<Rightarrow> Inl (NotFound name))"
  | (absent) d where "getServiceFunc s = Recording d" "entries s name = None"
      "r = Inl (NotFound name)" "s' = s"
  | (ready) d e where "getServiceFunc s = Recording d" "entries s name = Some e"
      "built (heap s e)" "r = Inr (e, instance' (heap s e))"
      "s' = emit (Handed d e (instance' (heap s e))) (appendDep d name s)"
  | (nested_failed) d e err where "getServiceFunc s = Recording d" "entries s name = Some e"
      "\<not> built (heap s e)" "build n name e (appendDep d name s) = Done (Some err, s')"
      "r = Inl err"
  | (nested_built) d e s2 where "getServiceFunc s = Recording d" "entries s name = Some e"
      "\<not> built (heap s e)" "build n name e (appendDep d name s) = Done (None, s2)"
      "r = Inr (e, instance' (heap s2 e))" "s' = emit (Handed d e (instance' (heap s2 e))) s2"
  using assms
  by (auto simp: Let_def split: if_splits option.splits outcome.splits prod.splits resolver.splits)

lemma run_Suc_elim:
  assumes "run (Suc n) f s = Done (i, s')"
  obtains (return) "f = Return i" "s' = s"
  | (request) name k r s1 where "f = Request name k" "GetService n name s = Done (r, s1)"
      "run n (k r) s1 = Done (i, s')"
  using assms
  by (cases f) (auto split: outcome.splits prod.splits)

definition extends :: "('c, 'v) weave \<Rightarrow> ('c, 'v) weave \<Rightarrow> bool" where
  "extends s s' =
     (entries s' = entries s \<and> ctx s' = ctx s \<and> ready s' = ready s \<and> wbuilt s' = wbuilt s \<and>
      nextAddr s' = nextAddr s \<and>
      (\<forall>a. builder (heap s' a) = builder (heap s a)) \<and>
      (\<forall>a. built (heap s a) \<longrightarrow> built (heap s' a) \<and> instance' (heap s' a) = instance' (heap s a)) \<and>
      (\<forall>a. \<exists>l. dependsOn (heap s' a) = dependsOn (heap s a) @ l \<and> set l \<subseteq> dom (entries s)) \<and>
      (\<exists>l. events s' = events s @ l))"

lemma extends_refl: "extends s s"
  by (simp add: extends_def)

lemma extends_trans: "extends s t \<Longrightarrow> extends t u \<Longrightarrow> extends s u"
  unfolding extends_def
  apply (intro conjI)
          apply simp
         apply simp
        apply simp
       apply simp
      apply simp
     apply simp
    apply simp
   apply (intro allI)
   subgoal for a
     apply (elim conjE)
     apply (erule_tac x=a in allE)+
     apply (elim exE conjE)
     subgoal for l1 l2 l3 l4
       by (rule exI[of _ "l3 @ l4"]) auto
     done
  apply (elim conjE exE)
  subgoal for l1 l2 by (rule exI[of _ "l1 @ l2"]) simp
  done

lemma extends_frame:
  "(\<forall>name a s r s'. build n name a s = Done (r, s') \<longrightarrow> extends s (s' :: ('c, 'v) weave)) \<and>
   (\<forall>f s i s'. run n f s = Done (i, s') \<longrightarrow> extends s (s' :: ('c, 'v) weave)) \<and>
   (\<forall>name s r s'. GetService n name s = Done (r, s') \<longrightarrow> extends s (s' :: ('c, 'v) weave))"
proof (induction n)
  case 0
  show ?case by simp
next
  case (Suc n)
  have B: "extends s s'" if "build (Suc n) name a s = Done (r, s')" for name a s r and s' :: "('c, 'v) weave"
    using that
  proof (cases rule: build_Suc_elim)
    case already
    then show ?thesis by (simp add: extends_refl)
  next
    case (failed b s2)
    from Suc failed(3) have "extends (emit (Invoked a) (setBuilt a True (s\<lparr>getServiceFunc := Recording a\<rparr>))) s2"
      by blast
    with failed(1) show ?thesis unfolding failed(5) extends_def by (auto simp: )
  next
    case (succeeded b v s2)
    from Suc succeeded(3) have "extends (emit (Invoked a) (setBuilt a True (s\<lparr>getServiceFunc := Recording a\<rparr>))) s2"
      by blast
    with succeeded(1) show ?thesis unfolding succeeded(5) extends_def by (auto simp: )
  qed
  have G: "extends s s'" if "GetService (Suc n) name s = Done (r, s')" for name s r and s' :: "('c, 'v) weave"
    using that
  proof (cases rule: GetService_Suc_elim)
    case lookup
    then show ?thesis by (simp add: extends_refl)
  next
    case (absent d)
    then show ?thesis by (simp add: extends_refl)
  next
    case (ready d e)
    then show ?thesis by (auto simp: extends_def)
  next
    case (nested_failed d e err)
    from Suc nested_failed(4) have "extends (appendDep d name s) s'" by blast
    moreover have "extends s (appendDep d name s)"
      using nested_failed(2) by (auto simp: extends_def)
    ultimately show ?thesis by (blast intro: extends_trans)
  next
    case (nested_built d e s2)
    from Suc nested_built(4) have "extends (appendDep d name s) s2" by blast
    moreover have "extends s (appendDep d name s)"
      using nested_built(2) by (auto simp: extends_def)
    moreover have "extends s2 s'" unfolding nested_built(6) by (auto simp: extends_def)
    ultimately show ?thesis by (blast intro: extends_trans)
  qed
  have R: "extends s s'" if "run (Suc n) f s = Done (i, s')" for f s i and s' :: "('c, 'v) weave"
    using that
  proof (cases rule: run_Suc_elim)
    case return
    then show ?thesis by (simp add: extends_refl)
  next
    case (request name k r s1)
    with Suc show ?thesis by (blast intro: extends_trans)
  qed
  from B G R show ?case by blast
qed

section \<open>Recorded edges and the entries under construction\<close>

definition edges :: "('c, 'v) weave \<Rightarrow> (nat \<times> nat) set" where
  "edges s = {(d, e). d \<in> ran (entries s) \<and> (\<exists>m \<in> set (dependsOn (heap s d)). entries s m = Some e)}"

definition cyclic :: "('c, 'v) weave \<Rightarrow> bool" where
  "cyclic s = (\<exists>a. (a, a) \<in> (edges s)\<^sup>+)"

definition consistent :: "nat set \<Rightarrow> ('c, 'v) weave \<Rightarrow> bool" where
  "consistent P s =
     ((\<forall>p \<in> P. built (heap s p) \<and> p \<in> ran (entries s)) \<and>
      (P \<noteq> {} \<longrightarrow> (\<exists>d. getServiceFunc s = Recording d \<and> d \<in> ran (entries s) \<and>
                          (\<forall>p \<in> P. (p, d) \<in> (edges s)\<^sup>*))) \<and>
      (\<forall>d e c. Handed d e c \<in> set (events s) \<longrightarrow>
          cyclic s \<or> (e \<notin> P \<and> built (heap s e) \<and> instance' (heap s e) = c)) \<and>
      (\<forall>a. built (heap s a) \<longrightarrow> a \<notin> P \<longrightarrow> Produced a (instance' (heap s a)) \<in> set (events s)) \<and>
      (\<forall>a v. Produced a v \<in> set (events s) \<longrightarrow>
          a \<notin> P \<and> built (heap s a) \<and> instance' (heap s a) = v))"

lemma extends_edges: "extends s s' \<Longrightarrow> edges s \<subseteq> edges s'"
proof
  fix x assume ext: "extends s s'" and x: "x \<in> edges s"
  obtain d e where xd: "x = (d, e)" by (cases x)
  from x xd obtain m where d: "d \<in> ran (entries s)" and m: "m \<in> set (dependsOn (heap s d))"
    and e: "entries s m = Some e" by (auto simp: edges_def)
  from ext obtain l where "dependsOn (heap s' d) = dependsOn (heap s d) @ l"
    unfolding extends_def by blast
  with m have "m \<in> set (dependsOn (heap s' d))" by simp
  moreover from ext have "entries s' = entries s" by (simp add: extends_def)
  ultimately show "x \<in> edges s'" using d e xd by (auto simp: edges_def)
qed

lemma extends_cyclic: "extends s s' \<Longrightarrow> cyclic s \<Longrightarrow> cyclic s'"
proof -
  assume ext: "extends s s'" and "cyclic s"
  then obtain a where "(a, a) \<in> (edges s)\<^sup>+" by (auto simp: cyclic_def)
  from trancl_mono[OF this extends_edges[OF ext]] show "cyclic s'" by (auto simp: cyclic_def)
qed

lemma extends_rtrancl: "extends s s' \<Longrightarrow> (p, d) \<in> (edges s)\<^sup>* \<Longrightarrow> (p, d) \<in> (edges s')\<^sup>*"
  using rtrancl_mono[OF extends_edges[of s s']] by (rule subsetD)

lemma edges_cong:
  "entries s' = entries s \<Longrightarrow> (\<forall>a. dependsOn (heap s' a) = dependsOn (heap s a)) \<Longrightarrow> edges s' = edges s"
  by (simp add: edges_def)

lemma cyclic_cong:
  "entries s' = entries s \<Longrightarrow> (\<forall>a. dependsOn (heap s' a) = dependsOn (heap s a)) \<Longrightarrow> cyclic s' = cyclic s"
  using edges_cong[of s' s] by (simp add: cyclic_def)

lemmas extends_build = extends_frame[THEN conjunct1, rule_format]
lemmas extends_run = extends_frame[THEN conjunct2, THEN conjunct1, rule_format]
lemmas extends_GetService = extends_frame[THEN conjunct2, THEN conjunct2, rule_format]

lemma consistentI:
  assumes "\<And>p. p \<in> P \<Longrightarrow> built (heap s p) \<and> p \<in> ran (entries s)"
    and "P \<noteq> {} \<Longrightarrow> \<exists>d. getServiceFunc s = Recording d \<and> d \<in> ran (entries s) \<and>
                          (\<forall>p \<in> P. (p, d) \<in> (edges s)\<^sup>*)"
    and "\<And>d e c. Handed d e c \<in> set (events s) \<Longrightarrow>
          cyclic s \<or> (e \<notin> P \<and> built (heap s e) \<and> instance' (heap s e) = c)"
    and "\<And>a. built (heap s a) \<Longrightarrow> a \<notin> P \<Longrightarrow> Produced a (instance' (heap s a)) \<in> set (events s)"
    and "\<And>a v. Produced a v \<in> set (events s) \<Longrightarrow>
          a \<notin> P \<and> built (heap s a) \<and> instance' (heap s a) = v"
  shows "consistent P s"
  unfolding consistent_def
proof (intro conjI ballI allI impI)
  fix p assume "p \<in> P"
  from assms(1)[OF this] show "built (heap s p)" by (rule conjunct1)
next
  fix p assume "p \<in> P"
  from assms(1)[OF this] show "p \<in> ran (entries s)" by (rule conjunct2)
next
  assume "P \<noteq> {}" then show "\<exists>d. getServiceFunc s = Recording d \<and> d \<in> ran (entries s) \<and>
                          (\<forall>p \<in> P. (p, d) \<in> (edges s)\<^sup>*)" by (rule assms(2))
next
  fix d e c assume "Handed d e c \<in> set (events s)"
  then show "cyclic s \<or> (e \<notin> P \<and> built (heap s e) \<and> instance' (heap s e) = c)" by (rule assms(3))
next
  fix a assume "built (heap s a)" "a \<notin> P"
  then show "Produced a (instance' (heap s a)) \<in> set (events s)" by (rule assms(4))
next
  fix a v assume "Produced a v \<in> set (events s)"
  from assms(5)[OF this] show "a \<notin> P" by (rule conjunct1)
next
  fix a v assume "Produced a v \<in> set (events s)"
  from assms(5)[OF this] show "built (heap s a)" by blast
next
  fix a v assume "Produced a v \<in> set (events s)"
  from assms(5)[OF this] show "instance' (heap s a) = v" by blast
qed

lemma consistent_built: "consistent P s \<Longrightarrow> p \<in> P \<Longrightarrow> built (heap s p) \<and> p \<in> ran (entries s)"
  unfolding consistent_def by blast

lemma consistent_resolver:
  "consistent P s \<Longrightarrow> P \<noteq> {} \<Longrightarrow>
     \<exists>d. getServiceFunc s = Recording d \<and> d \<in> ran (entries s) \<and> (\<forall>p \<in> P. (p, d) \<in> (edges s)\<^sup>*)"
  unfolding consistent_def by blast

lemma consistent_handed:
  "consistent P s \<Longrightarrow> Handed d e c \<in> set (events s) \<Longrightarrow>
     cyclic s \<or> (e \<notin> P \<and> built (heap s e) \<and> instance' (heap s e) = c)"
  unfolding consistent_def by blast

lemma consistent_done:
  "consistent P s \<Longrightarrow> built (heap s a) \<Longrightarrow> a \<notin> P \<Longrightarrow> Produced a (instance' (heap s a)) \<in> set (events s)"
  unfolding consistent_def by blast

lemma consistent_produced:
  "consistent P s \<Longrightarrow> Produced a v \<in> set (events s) \<Longrightarrow>
     a \<notin> P \<and> built (heap s a) \<and> instance' (heap s a) = v"
  unfolding consistent_def by blast


lemma consistent_enter:
  assumes c: "consistent P s" and nb: "\<not> built (heap s a)" and ar: "a \<in> ran (entries s)"
    and reach: "\<forall>p \<in> P. (p, a) \<in> (edges s)\<^sup>*"
  shows "consistent (insert a P) (emit (Invoked a) (setBuilt a True (s\<lparr>getServiceFunc := Recording a\<rparr>)))"
proof (rule consistentI)
  let ?s1 = "emit (Invoked a) (setBuilt a True (s\<lparr>getServiceFunc := Recording a\<rparr>))"
  have e: "edges ?s1 = edges s" by (rule edges_cong) simp_all
  have cy: "cyclic ?s1 = cyclic s" by (rule cyclic_cong) simp_all
  show "built (heap ?s1 p) \<and> p \<in> ran (entries ?s1)" if "p \<in> insert a P" for p
    using that consistent_built[OF c, of p] ar by auto
  show "\<exists>d. getServiceFunc ?s1 = Recording d \<and> d \<in> ran (entries ?s1) \<and>
          (\<forall>p \<in> insert a P. (p, d) \<in> (edges ?s1)\<^sup>*)"
    using ar reach by (auto simp: e)
  show "cyclic ?s1 \<or> (e' \<notin> insert a P \<and> built (heap ?s1 e') \<and> instance' (heap ?s1 e') = c')"
    if "Handed d e' c' \<in> set (events ?s1)" for d e' c'
  proof -
    from that have "Handed d e' c' \<in> set (events s)" by simp
    from consistent_handed[OF c this] nb show ?thesis by (auto simp: cy)
  qed
  show "Produced x (instance' (heap ?s1 x)) \<in> set (events ?s1)"
    if "built (heap ?s1 x)" "x \<notin> insert a P" for x
    using that consistent_done[OF c, of x] by (auto split: if_splits)
  show "x \<notin> insert a P \<and> built (heap ?s1 x) \<and> instance' (heap ?s1 x) = v"
    if "Produced x v \<in> set (events ?s1)" for x v
  proof -
    from that have "Produced x v \<in> set (events s)" by simp
    from consistent_produced[OF c this] nb show ?thesis by auto
  qed
qed


lemma consistent_fail:
  assumes c: "consistent (insert a P) s2" and aP: "a \<notin> P"
  shows "consistent P (setBuilt a False s2)"
proof (rule consistentI)
  let ?s' = "setBuilt a False s2"
  have e: "edges ?s' = edges s2" by (rule edges_cong) simp_all
  have cy: "cyclic ?s' = cyclic s2" by (rule cyclic_cong) simp_all
  show "built (heap ?s' p) \<and> p \<in> ran (entries ?s')" if "p \<in> P" for p
    using that consistent_built[OF c, of p] aP by auto
  show "\<exists>d. getServiceFunc ?s' = Recording d \<and> d \<in> ran (entries ?s') \<and>
          (\<forall>p \<in> P. (p, d) \<in> (edges ?s')\<^sup>*)" if "P \<noteq> {}"
    using consistent_resolver[OF c] by (auto simp: e)
  show "cyclic ?s' \<or> (e' \<notin> P \<and> built (heap ?s' e') \<and> instance' (heap ?s' e') = c')"
    if "Handed d e' c' \<in> set (events ?s')" for d e' c'
  proof -
    from that have "Handed d e' c' \<in> set (events s2)" by simp
    from consistent_handed[OF c this] show ?thesis by (auto simp: cy)
  qed
  show "Produced x (instance' (heap ?s' x)) \<in> set (events ?s')"
    if "built (heap ?s' x)" "x \<notin> P" for x
    using that consistent_done[OF c, of x] by (auto split: if_splits)
  show "x \<notin> P \<and> built (heap ?s' x) \<and> instance' (heap ?s' x) = v"
    if "Produced x v \<in> set (events ?s')" for x v
  proof -
    from that have "Produced x v \<in> set (events s2)" by simp
    from consistent_produced[OF c this] show ?thesis by auto
  qed
qed

lemma consistent_succeed:
  assumes c: "consistent (insert a P) s2" and aP: "a \<notin> P"
    and outer: "P \<noteq> {} \<Longrightarrow> \<exists>d. orig = Recording d \<and> d \<in> ran (entries s2) \<and> (\<forall>p \<in> P. (p, d) \<in> (edges s2)\<^sup>*)"
  shows "consistent P ((emit (Produced a v) (setInstance a v s2))\<lparr>getServiceFunc := orig\<rparr>)"
proof (rule consistentI)
  let ?s' = "(emit (Produced a v) (setInstance a v s2))\<lparr>getServiceFunc := orig\<rparr>"
  have e: "edges ?s' = edges s2" by (rule edges_cong) simp_all
  have cy: "cyclic ?s' = cyclic s2" by (rule cyclic_cong) simp_all
  have ba: "built (heap s2 a)" using consistent_built[OF c, of a] by simp
  show "built (heap ?s' p) \<and> p \<in> ran (entries ?s')" if "p \<in> P" for p
    using that consistent_built[OF c, of p] by auto
  show "\<exists>d. getServiceFunc ?s' = Recording d \<and> d \<in> ran (entries ?s') \<and>
          (\<forall>p \<in> P. (p, d) \<in> (edges ?s')\<^sup>*)" if "P \<noteq> {}"
    using outer[OF that] by (auto simp: e)
  show "cyclic ?s' \<or> (e' \<notin> P \<and> built (heap ?s' e') \<and> instance' (heap ?s' e') = c')"
    if "Handed d e' c' \<in> set (events ?s')" for d e' c'
  proof -
    from that have "Handed d e' c' \<in> set (events s2)" by simp
    from consistent_handed[OF c this] show ?thesis by (auto simp: cy)
  qed
  show "Produced x (instance' (heap ?s' x)) \<in> set (events ?s')"
    if "built (heap ?s' x)" "x \<notin> P" for x
    using that consistent_done[OF c, of x] by (auto split: if_splits)
  show "x \<notin> P \<and> built (heap ?s' x) \<and> instance' (heap ?s' x) = v'"
    if "Produced x v' \<in> set (events ?s')" for x v'
  proof (cases "Produced x v' \<in> set (events s2)")
    case True
    from consistent_produced[OF c this] show ?thesis by auto
  next
    case False
    with that have "x = a" "v' = v" by auto
    with aP ba show ?thesis by simp
  qed
qed

lemma extends_appendDep: "entries s name = Some e \<Longrightarrow> extends s (appendDep d name s)"
  by (auto simp: extends_def)

lemma consistent_extend_edge:
  assumes c: "consistent P s" and e: "entries s name = Some e"
  shows "consistent P (appendDep d name s)"
proof (rule consistentI)
  let ?s1 = "appendDep d name s"
  have ext: "extends s ?s1" using e by (rule extends_appendDep)
  show "built (heap ?s1 p) \<and> p \<in> ran (entries ?s1)" if "p \<in> P" for p
    using consistent_built[OF c that] by simp
  show "\<exists>d'. getServiceFunc ?s1 = Recording d' \<and> d' \<in> ran (entries ?s1) \<and>
          (\<forall>p \<in> P. (p, d') \<in> (edges ?s1)\<^sup>*)" if "P \<noteq> {}"
  proof -
    from consistent_resolver[OF c that] obtain d' where
      d': "getServiceFunc s = Recording d'" "d' \<in> ran (entries s)" "\<forall>p \<in> P. (p, d') \<in> (edges s)\<^sup>*"
      by blast
    from d'(3) have "\<forall>p \<in> P. (p, d') \<in> (edges ?s1)\<^sup>*"
      using extends_rtrancl[OF ext] by blast
    with d'(1,2) show ?thesis by simp
  qed
  show "cyclic ?s1 \<or> (e' \<notin> P \<and> built (heap ?s1 e') \<and> instance' (heap ?s1 e') = c')"
    if "Handed d0 e' c' \<in> set (events ?s1)" for d0 e' c'
  proof -
    from that have "Handed d0 e' c' \<in> set (events s)" by simp
    from consistent_handed[OF c this] extends_cyclic[OF ext] show ?thesis by auto
  qed
  show "Produced x (instance' (heap ?s1 x)) \<in> set (events ?s1)"
    if "built (heap ?s1 x)" "x \<notin> P" for x
    using that consistent_done[OF c, of x] by simp
  show "x \<notin> P \<and> built (heap ?s1 x) \<and> instance' (heap ?s1 x) = v"
    if "Produced x v \<in> set (events ?s1)" for x v
  proof -
    from that have "Produced x v \<in> set (events s)" by simp
    from consistent_produced[OF c this] show ?thesis by simp
  qed
qed

lemma consistent_hand:
  assumes c: "consistent P s" and b: "built (heap s e)" and cy: "e \<in> P \<Longrightarrow> cyclic s"
  shows "consistent P (emit (Handed d e (instance' (heap s e))) s)"
proof (rule consistentI)
  let ?s' = "emit (Handed d e (instance' (heap s e))) s"
  have ed: "edges ?s' = edges s" by (rule edges_cong) simp_all
  have cyc: "cyclic ?s' = cyclic s" by (rule cyclic_cong) simp_all
  show "built (heap ?s' p) \<and> p \<in> ran (entries ?s')" if "p \<in> P" for p
    using consistent_built[OF c that] by simp
  show "\<exists>d'. getServiceFunc ?s' = Recording d' \<and> d' \<in> ran (entries ?s') \<and>
          (\<forall>p \<in> P. (p, d') \<in> (edges ?s')\<^sup>*)" if "P \<noteq> {}"
    using consistent_resolver[OF c that] by (simp add: ed)
  show "cyclic ?s' \<or> (e' \<notin> P \<and> built (heap ?s' e') \<and> instance' (heap ?s' e') = c')"
    if "Handed d0 e' c' \<in> set (events ?s')" for d0 e' c'
  proof (cases "Handed d0 e' c' \<in> set (events s)")
    case True
    from consistent_handed[OF c this] show ?thesis by (simp add: cyc)
  next
    case False
    with that have "e' = e" "c' = instance' (heap s e)" by auto
    with b cy show ?thesis by (auto simp: cyc)
  qed
  show "Produced x (instance' (heap ?s' x)) \<in> set (events ?s')"
    if "built (heap ?s' x)" "x \<notin> P" for x
    using that consistent_done[OF c, of x] by simp
  show "x \<notin> P \<and> built (heap ?s' x) \<and> instance' (heap ?s' x) = v"
    if "Produced x v \<in> set (events ?s')" for x v
  proof -
    from that have "Produced x v \<in> set (events s)" by simp
    from consistent_produced[OF c this] show ?thesis by simp
  qed
qed

lemma edge_recorded:
  assumes "d \<in> ran (entries s)" "entries s name = Some e"
  shows "(d, e) \<in> edges (appendDep d name s)"
  using assms by (auto simp: edges_def)

lemma consistent_frame:
  "(\<forall>name a s r s' P. build n name a s = Done (r, s') \<longrightarrow> consistent P s \<longrightarrow>
       a \<in> ran (entries s) \<longrightarrow> (\<not> built (heap s a) \<longrightarrow> (\<forall>p \<in> P. (p, a) \<in> (edges s)\<^sup>*)) \<longrightarrow>
       consistent P (s' :: ('c, 'v) weave) \<and> (r = None \<longrightarrow> built (heap s' a))) \<and>
   (\<forall>f s i s' P. run n f s = Done (i, s') \<longrightarrow> consistent P s \<longrightarrow> P \<noteq> {} \<longrightarrow>
       consistent P (s' :: ('c, 'v) weave)) \<and>
   (\<forall>name s r s' P. GetService n name s = Done (r, s') \<longrightarrow> consistent P s \<longrightarrow> P \<noteq> {} \<longrightarrow>
       consistent P (s' :: ('c, 'v) weave))"
proof (induction n)
  case 0
  show ?case by simp
next
  case (Suc n)
  note IHB = Suc[THEN conjunct1, rule_format]
  note IHR = Suc[THEN conjunct2, THEN conjunct1, rule_format]
  note IHG = Suc[THEN conjunct2, THEN conjunct2, rule_format]
  have B: "consistent P s' \<and> (r = None \<longrightarrow> built (heap s' a))"
    if run: "build (Suc n) name a s = Done (r, s')" and c: "consistent P s"
      and ar: "a \<in> ran (entries s)"
      and reach: "\<not> built (heap s a) \<Longrightarrow> \<forall>p \<in> P. (p, a) \<in> (edges s)\<^sup>*"
    for name a s r P and s' :: "('c, 'v) weave"
    using run
  proof (cases rule: build_Suc_elim)
    case already
    with c show ?thesis by simp
  next
    case (failed b s2)
    let ?s1 = "emit (Invoked a) (setBuilt a True (s\<lparr>getServiceFunc := Recording a\<rparr>))"
    have aP: "a \<notin> P" using consistent_built[OF c, of a] failed(1) by blast
    have "consistent (insert a P) ?s1"
      using c failed(1) ar reach[OF failed(1)] by (rule consistent_enter)
    from IHR[OF failed(3) this] have "consistent (insert a P) s2" by simp
    from consistent_fail[OF this aP] failed(4,5) show ?thesis by simp
  next
    case (succeeded b v s2)
    let ?s1 = "emit (Invoked a) (setBuilt a True (s\<lparr>getServiceFunc := Recording a\<rparr>))"
    have aP: "a \<notin> P" using consistent_built[OF c, of a] succeeded(1) by blast
    have c1: "consistent (insert a P) ?s1"
      using c succeeded(1) ar reach[OF succeeded(1)] by (rule consistent_enter)
    from IHR[OF succeeded(3) this] have c2: "consistent (insert a P) s2" by simp
    have ext: "extends ?s1 s2" using succeeded(3) by (rule extends_run)
    have e1: "edges ?s1 = edges s" by (rule edges_cong) simp_all
    have en: "entries s2 = entries s" using ext by (simp add: extends_def)
    have outer: "\<exists>d. getServiceFunc s = Recording d \<and> d \<in> ran (entries s2) \<and>
        (\<forall>p \<in> P. (p, d) \<in> (edges s2)\<^sup>*)" if "P \<noteq> {}"
    proof -
      from consistent_resolver[OF c that] obtain d where
        d: "getServiceFunc s = Recording d" "d \<in> ran (entries s)" "\<forall>p \<in> P. (p, d) \<in> (edges s)\<^sup>*"
        by blast
      from d(3) have "\<forall>p \<in> P. (p, d) \<in> (edges s2)\<^sup>*"
        using extends_rtrancl[OF ext] by (simp add: e1)
      with d(1,2) en show ?thesis by simp
    qed
    have "built (heap s2 a)" using consistent_built[OF c2, of a] by simp
    with consistent_succeed[OF c2 aP outer, of v] succeeded(4,5)
    show ?thesis by simp
  qed
  have G: "consistent P s'"
    if run: "GetService (Suc n) name s = Done (r, s')" and c: "consistent P s" and ne: "P \<noteq> {}"
    for name s r P and s' :: "('c, 'v) weave"
    using run
  proof (cases rule: GetService_Suc_elim)
    case lookup
    with c show ?thesis by simp
  next
    case (absent d)
    with c show ?thesis by simp
  next
    case (ready d e)
    let ?s1 = "appendDep d name s"
    have c1: "consistent P ?s1" using c ready(2) by (rule consistent_extend_edge)
    from consistent_resolver[OF c ne] ready(1) have dr: "d \<in> ran (entries s)" by auto
    have cy: "cyclic ?s1" if "e \<in> P"
    proof -
      from consistent_resolver[OF c1 ne] ready(1) that have "(e, d) \<in> (edges ?s1)\<^sup>*" by auto
      from this edge_recorded[OF dr ready(2)] have "(e, e) \<in> (edges ?s1)\<^sup>+" by (rule rtrancl_into_trancl1)
      then show ?thesis by (auto simp: cyclic_def)
    qed
    have "built (heap ?s1 e)" using ready(3) by simp
    from consistent_hand[OF c1 this cy, of d] ready(5) show ?thesis by simp
  next
    case (nested_failed d e err)
    let ?s1 = "appendDep d name s"
    have c1: "consistent P ?s1" using c nested_failed(2) by (rule consistent_extend_edge)
    from consistent_resolver[OF c ne] nested_failed(1) have dr: "d \<in> ran (entries s)" by auto
    have er: "e \<in> ran (entries ?s1)" using nested_failed(2) by (auto simp: ran_def)
    have reach: "\<forall>p \<in> P. (p, e) \<in> (edges ?s1)\<^sup>*"
    proof
      fix p assume "p \<in> P"
      with consistent_resolver[OF c1 ne] nested_failed(1) have "(p, d) \<in> (edges ?s1)\<^sup>*" by auto
      with edge_recorded[OF dr nested_failed(2)] show "(p, e) \<in> (edges ?s1)\<^sup>*"
        by (meson rtrancl_into_rtrancl)
    qed
    from IHB[OF nested_failed(4) c1 er] reach show ?thesis by blast
  next
    case (nested_built d e s2)
    let ?s1 = "appendDep d name s"
    have c1: "consistent P ?s1" using c nested_built(2) by (rule consistent_extend_edge)
    from consistent_resolver[OF c ne] nested_built(1) have dr: "d \<in> ran (entries s)" by auto
    have er: "e \<in> ran (entries ?s1)" using nested_built(2) by (auto simp: ran_def)
    have reach: "\<forall>p \<in> P. (p, e) \<in> (edges ?s1)\<^sup>*"
    proof
      fix p assume "p \<in> P"
      with consistent_resolver[OF c1 ne] nested_built(1) have "(p, d) \<in> (edges ?s1)\<^sup>*" by auto
      with edge_recorded[OF dr nested_built(2)] show "(p, e) \<in> (edges ?s1)\<^sup>*"
        by (meson rtrancl_into_rtrancl)
    qed
    from IHB[OF nested_built(4) c1 er] reach
    have c2: "consistent P s2" and b2: "built (heap s2 e)" by blast+
    have eP: "e \<notin> P" using consistent_built[OF c, of e] nested_built(3) by blast
    from consistent_hand[OF c2 b2, of d] eP nested_built(6) show ?thesis by simp
  qed
  have R: "consistent P s'"
    if run: "run (Suc n) f s = Done (i, s')" and c: "consistent P s" and ne: "P \<noteq> {}"
    for f s i P and s' :: "('c, 'v) weave"
    using run
  proof (cases rule: run_Suc_elim)
    case return
    with c show ?thesis by simp
  next
    case (request name k r s1)
    from IHG[OF request(2) c ne] have "consistent P s1" .
    from IHR[OF request(3) this ne] show ?thesis .
  qed
  show ?case
    apply (intro conjI allI impI)
    subgoal for name a s r s' P using B[of name a s r s' P] by blast
    subgoal for name a s r s' P using B[of name a s r s' P] by blast
    subgoal for f s i s' P using R[of f s i s' P] by blast
    subgoal for name s r s' P using G[of name s r s' P] by blast
    done
qed

lemmas consistent_build = consistent_frame[THEN conjunct1, rule_format]

lemma extends_Range_build: "Range_build n names s = Done (r, s') \<Longrightarrow> extends s s'"
proof (induction names arbitrary: s)
  case Nil
  then show ?case by (simp add: extends_refl)
next
  case (Cons name names)
  show ?case
  proof (cases "entries s name")
    case None
    with Cons show ?thesis by simp
  next
    case (Some a)
    show ?thesis
    proof (cases "build n name a s")
      case (Done x)
      obtain r1 s1 where x: "x = (r1, s1)" by (cases x)
      have e1: "extends s s1" using Done x by (simp add: extends_build)
      show ?thesis
      proof (cases r1)
        case None
        with Cons.prems Some Done x have "Range_build n names s1 = Done (r, s')" by simp
        from e1 Cons.IH[OF this] show ?thesis by (rule extends_trans)
      next
        case (Some err)
        with Cons.prems \<open>entries s name = Some a\<close> Done x e1 show ?thesis by simp
      qed
    qed (use Cons.prems Some in simp_all)
  qed
qed



lemma Range_build_failure:
  "Range_build n names s = Done (Some err, s') \<Longrightarrow>
     \<exists>xs name ys a s1. names = xs @ name # ys \<and> Range_build n xs s = Done (None, s1) \<and>
        entries s1 name = Some a \<and> build n name a s1 = Done (Some err, s')"
proof (induction names arbitrary: s)
  case Nil
  then show ?case by simp
next
  case (Cons name names)
  show ?case
  proof (cases "entries s name")
    case None
    with Cons.prems have "Range_build n names s = Done (Some err, s')" by simp
    from Cons.IH[OF this] obtain xs nm ys a s1 where
      h: "names = xs @ nm # ys" "Range_build n xs s = Done (None, s1)"
         "entries s1 nm = Some a" "build n nm a s1 = Done (Some err, s')" by blast
    from h(2) None have "Range_build n (name # xs) s = Done (None, s1)" by simp
    moreover from h(1) have "name # names = (name # xs) @ nm # ys" by simp
    ultimately show ?thesis using h(3,4) by blast
  next
    case (Some a)
    show ?thesis
    proof (cases "build n name a s = Done (Some err, s')")
      case True
      have "Range_build n [] s = Done (None, s)" by simp
      moreover have "name # names = [] @ name # names" by simp
      ultimately show ?thesis using True Some by blast
    next
      case False
      with Cons.prems Some obtain s0 where b: "build n name a s = Done (None, s0)"
        and r: "Range_build n names s0 = Done (Some err, s')"
        by (auto split: outcome.splits option.splits prod.splits)
      from Cons.IH[OF r] obtain xs nm ys a' s1 where
        h: "names = xs @ nm # ys" "Range_build n xs s0 = Done (None, s1)"
           "entries s1 nm = Some a'" "build n nm a' s1 = Done (Some err, s')" by blast
      from h(2) b Some have "Range_build n (name # xs) s = Done (None, s1)" by simp
      moreover from h(1) have "name # names = (name # xs) @ nm # ys" by simp
      ultimately show ?thesis using h(3,4) by blast
    qed
  qed
qed

lemma build_failure:
  assumes "build n name a s = Done (Some err, s')"
  shows "err = BuildFailed name \<and> \<not> built (heap s' a) \<and>
     (\<exists>m b s2. n = Suc m \<and> builder (heap s a) = Some b \<and>
        run m (b (ctx s)) (emit (Invoked a) (setBuilt a True (s\<lparr>getServiceFunc := Recording a\<rparr>)))
          = Done (Nil, s2) \<and> s' = setBuilt a False s2)"
proof (cases n)
  case 0
  with assms show ?thesis by simp
next
  case (Suc m)
  from assms[unfolded Suc] show ?thesis
    by (cases rule: build_Suc_elim) (auto simp: Suc)
qed

lemma consistent_Range_build:
  "Range_build n names s = Done (r, s') \<Longrightarrow> consistent {} s \<Longrightarrow>
     consistent {} s' \<and> (r = None \<longrightarrow> (\<forall>name \<in> set names. \<forall>a. entries s name = Some a \<longrightarrow> built (heap s' a)))"
proof (induction names arbitrary: s)
  case Nil
  then show ?case by simp
next
  case (Cons name names)
  show ?case
  proof (cases "entries s name")
    case None
    with Cons.prems have "Range_build n names s = Done (r, s')" by simp
    from Cons.IH[OF this Cons.prems(2)] None show ?thesis by auto
  next
    case (Some a)
    show ?thesis
    proof (cases "build n name a s")
      case (Done x)
      obtain r1 s1 where x: "x = (r1, s1)" by (cases x)
      have ar: "a \<in> ran (entries s)" using Some by (auto simp: ran_def)
      from consistent_build[OF Done[unfolded x] Cons.prems(2) ar]
      have c1: "consistent {} s1" and b1: "r1 = None \<longrightarrow> built (heap s1 a)" by auto
      show ?thesis
      proof (cases r1)
        case None
        with Cons.prems Some Done x have rest: "Range_build n names s1 = Done (r, s')" by simp
        have e1: "extends s s1" using Done x by (simp add: extends_build)
        have e2: "extends s1 s'" using rest by (rule extends_Range_build)
        have en: "entries s1 = entries s" using e1 by (simp add: extends_def)
        from Cons.IH[OF rest c1] have c': "consistent {} s'"
          and all: "r = None \<longrightarrow> (\<forall>name \<in> set names. \<forall>a. entries s name = Some a \<longrightarrow> built (heap s' a))"
          by (simp_all add: en)
        have "built (heap s1 a)" using b1 None by simp
        then have ba: "built (heap s' a)" using e2 unfolding extends_def by blast
        have "\<forall>nm \<in> set (name # names). \<forall>a'. entries s nm = Some a' \<longrightarrow> built (heap s' a')" if "r = None"
        proof (intro ballI allI impI)
          fix nm a' assume nm: "nm \<in> set (name # names)" and e: "entries s nm = Some a'"
          show "built (heap s' a')"
          proof (cases "nm = name")
            case True
            with e Some ba show ?thesis by simp
          next
            case False
            with nm have "nm \<in> set names" by simp
            with all that e show ?thesis by blast
          qed
        qed
        with c' show ?thesis by blast
      next
        case (Some err)
        with Cons.prems \<open>entries s name = Some a\<close> Done x c1 show ?thesis by auto
      qed
    qed (use Cons.prems Some in simp_all)
  qed
qed

definition fresh :: "('c, 'v) weave \<Rightarrow> bool" where
  "fresh s = ((\<forall>a. \<not> built (heap s a)) \<and> events s = [] \<and> \<not> wbuilt s)"

lemma fresh_consistent: "fresh s \<Longrightarrow> consistent {} s"
  by (simp add: fresh_def consistent_def)


section \<open>Reachable containers\<close>

inductive reachable :: "('c, 'v::zero) weave \<Rightarrow> bool" where
  r_New: "reachable New"
| r_SetCtx: "reachable s \<Longrightarrow> reachable (SetCtx c s)"
| r_Ready: "reachable s \<Longrightarrow> reachable (Ready fn s)"
| r_assign: "reachable s \<Longrightarrow> reachable (assign name placeholder b s)"
| r_Build: "reachable s \<Longrightarrow> Build n names s = Done (r, s') \<Longrightarrow> reachable s'"
| r_GetService: "reachable s \<Longrightarrow> GetService n name s = Done (r', s') \<Longrightarrow> reachable s'"
| r_Compact: "reachable s \<Longrightarrow> Compact names s = Done s' \<Longrightarrow> reachable s'"

lemma extends_deps_registered:
  assumes "extends s s'" "deps_registered s"
  shows "deps_registered s'"
  unfolding deps_registered_def
proof (intro allI impI)
  fix name a m
  assume e: "entries s' name = Some a" and m: "m \<in> set (dependsOn (heap s' a))"
  from assms(1) have en: "entries s' = entries s" by (simp add: extends_def)
  from assms(1) obtain l where l: "dependsOn (heap s' a) = dependsOn (heap s a) @ l"
    "set l \<subseteq> dom (entries s)" unfolding extends_def by blast
  from m l(1) have "m \<in> set (dependsOn (heap s a)) \<or> m \<in> set l" by auto
  then show "entries s' m \<noteq> None"
  proof
    assume "m \<in> set (dependsOn (heap s a))"
    with assms(2) e en show ?thesis unfolding deps_registered_def by metis
  next
    assume "m \<in> set l"
    with l(2) en show ?thesis by auto
  qed
qed

lemma extends_Build: "Build n names s = Done (r, s') \<Longrightarrow> deps_registered s \<Longrightarrow> deps_registered s'"
proof -
  assume b: "Build n names s = Done (r, s')" and d: "deps_registered s"
  show ?thesis
  proof (cases "wbuilt s")
    case True
    with b d show ?thesis by (simp add: Build_def)
  next
    case False
    with b obtain r1 s1 where r: "Range_build n names s = Done (r1, s1)"
      by (auto simp: Build_def split: outcome.splits)
    from extends_deps_registered[OF extends_Range_build[OF r] d] have d1: "deps_registered s1" .
    from b False r have "s' = s1 \<or> s' = s1\<lparr>wbuilt := True, events := events s1 @ map ReadyRun (ready s1)\<rparr>"
      by (auto simp: Build_def split: option.splits)
    with d1 show ?thesis by (auto simp: deps_registered_def)
  qed
qed

lemma Range_compact_deps:
  "set (dependsOn (heap (Range_compact names s) a)) \<subseteq> set (dependsOn (heap s a))"
proof (induction names arbitrary: s)
  case Nil
  show ?case by simp
next
  case (Cons name names)
  show ?case
  proof (cases "entries s name")
    case None
    with Cons show ?thesis by simp
  next
    case (Some x)
    let ?t = "s\<lparr>heap := (heap s)(x := (heap s x)\<lparr>builder := None, dependsOn := []\<rparr>)\<rparr>"
    have "set (dependsOn (heap ?t a)) \<subseteq> set (dependsOn (heap s a))" by simp
    with Cons[of ?t] Some show ?thesis by (simp del: fun_upd_apply)
  qed
qed

lemma reachable_deps_registered: "reachable s \<Longrightarrow> deps_registered s"
proof (induction rule: reachable.induct)
  case r_New
  then show ?case by (simp add: deps_registered_def New_def)
next
  case (r_SetCtx s c)
  then show ?case by (simp add: deps_registered_def SetCtx_def)
next
  case (r_Ready s fn)
  then show ?case by (simp add: deps_registered_def Ready_def)
next
  case (r_assign s name placeholder b)
  show ?case
    unfolding deps_registered_def
  proof (intro allI impI)
    fix nm a m
    assume e: "entries (assign name placeholder b s) nm = Some a"
      and m: "m \<in> set (dependsOn (heap (assign name placeholder b s) a))"
    have ne: "a \<noteq> nextAddr s" using m by (auto simp: assign_def)
    with e have e0: "entries s nm = Some a" by (auto simp: assign_def split: if_splits)
    from m ne have "m \<in> set (dependsOn (heap s a))" by (simp add: assign_def)
    with r_assign.IH e0 have "entries s m \<noteq> None" unfolding deps_registered_def by blast
    then show "entries (assign name placeholder b s) m \<noteq> None" by (simp add: assign_def)
  qed
next
  case (r_Build s n names r s')
  then show ?case by (blast intro: extends_Build)
next
  case (r_GetService s n name r' s')
  then show ?case by (blast intro: extends_deps_registered extends_GetService)
next
  case (r_Compact s names s')
  from r_Compact(2) have s': "s' = Range_compact names (s\<lparr>ctx := None, ready := []\<rparr>)"
    by (auto simp: Compact_def split: if_splits)
  show ?case
    unfolding deps_registered_def
  proof (intro allI impI)
    fix nm a m
    assume e: "entries s' nm = Some a" and m: "m \<in> set (dependsOn (heap s' a))"
    from e have e0: "entries s nm = Some a" by (simp add: s')
    from m Range_compact_deps[of names "s\<lparr>ctx := None, ready := []\<rparr>" a]
    have "m \<in> set (dependsOn (heap s a))" unfolding s' by auto
    with r_Compact.IH e0 have "entries s m \<noteq> None" unfolding deps_registered_def by blast
    then show "entries s' m \<noteq> None" by (simp add: s')
  qed
qed

section \<open>Example containers\<close>

lemmas engine_defs = Build_def Provide_def assign_def New_def MustMake_def TryMake_def toAny_def
  setBuilt_def setInstance_def appendDep_def emit_def

definition chain :: "(unit, nat) weave" where
  "chain =
     Provide ''C'' (\<lambda>c. MustMake ''A'' (\<lambda>pa a. MustMake ''B'' (\<lambda>pb b. Return (Some (a + b + 1)))))
       (Provide ''B'' (\<lambda>c. MustMake ''A'' (\<lambda>pa a. Return (Some (a + 10))))
         (Provide ''A'' (\<lambda>c. Return (Some 5)) New))"

lemma chain_run:
  "\<exists>s'. Build 10 [''C'', ''A'', ''B''] chain = Done (None, s')
     \<and> entries s' = [''A'' \<mapsto> 0, ''B'' \<mapsto> 1, ''C'' \<mapsto> 2]
     \<and> dependsOn (heap s' 0) = [] \<and> dependsOn (heap s' 1) = [''A'']
     \<and> dependsOn (heap s' 2) = [''A'', ''B'']
     \<and> instance' (heap s' 0) = 5 \<and> instance' (heap s' 1) = 15 \<and> instance' (heap s' 2) = 21
     \<and> events s' = [Invoked 2, Invoked 0, Produced 0 5, Handed 2 0 5, Invoked 1, Handed 1 0 5,
                     Produced 1 15, Handed 2 1 15, Produced 2 21]"
  by (simp add: chain_def engine_defs numeral_eq_Suc fun_eq_iff)

lemma ranked_acyclic:
  assumes "\<And>d e. (d, e) \<in> edges s \<Longrightarrow> e < d"
  shows "\<not> cyclic s"
proof
  assume "cyclic s"
  then obtain a where a: "(a, a) \<in> (edges s)\<^sup>+" by (auto simp: cyclic_def)
  have "y < x" if "(x, y) \<in> (edges s)\<^sup>+" for x y
    using that by (induction rule: trancl.induct) (auto dest: assms)
  from this[OF a] show False by simp
qed

lemma chain_fresh: "fresh chain"
  by (simp add: fresh_def chain_def engine_defs)

lemma chain_keys: "set [''C'', ''A'', ''B''] = dom (entries chain)"
  by (auto simp: chain_def engine_defs)

text \<open>
  A container whose builder asks for a name that was never registered and goes on, and
  the container of the test \<^verbatim>\<open>TestDI_ComplexCircularDependencies\<close>.
\<close>

definition lenient :: "(unit, nat) weave" where
  "lenient = Provide ''A'' (\<lambda>c. TryMake ''X'' (\<lambda>r. case r of None \<Rightarrow> Return (Some 7)
                                                         | Some _ \<Rightarrow> Return (Some 1))) New"

definition complex :: "(unit, nat) weave" where
  "complex =
     Provide ''serviceD'' (\<lambda>c. MustMake ''serviceB'' (\<lambda>p v. Return (Some 4)))
      (Provide ''serviceC'' (\<lambda>c. MustMake ''serviceA'' (\<lambda>p v. Return (Some 3)))
        (Provide ''serviceB'' (\<lambda>c. MustMake ''serviceC'' (\<lambda>p v.
                                   MustMake ''serviceD'' (\<lambda>q w. Return (Some 2))))
          (Provide ''serviceA'' (\<lambda>c. MustMake ''serviceB'' (\<lambda>p v. Return (Some 1))) New)))"

lemma GetService_absent:
  "entries t m = None \<Longrightarrow> GetService (Suc k) m t = Done (Inl (NotFound m), t)"
  by (simp split: resolver.splits)

lemma Build_failure_Range:
  assumes "Build n names s = Done (Some err, s')"
  shows "\<not> wbuilt s \<and> Range_build n names s = Done (Some err, s')"
  using assms by (auto simp: Build_def split: if_splits outcome.splits option.splits prod.splits)

section \<open>Containers registered through Provide\<close>












inductive provided :: "('c, 'v::zero) weave \<Rightarrow> bool" where
  p_New: "provided New"
| p_SetCtx: "provided s \<Longrightarrow> provided (SetCtx c s)"
| p_Ready: "provided s \<Longrightarrow> provided (Ready fn s)"
| p_Provide: "provided s \<Longrightarrow> provided (Provide name b s)"
| p_Build: "provided s \<Longrightarrow> set names = dom (entries s) \<Longrightarrow> Build n names s = Done (r, s')
     \<Longrightarrow> provided s'"
| p_GetService: "provided s \<Longrightarrow> GetService n name s = Done (r', s') \<Longrightarrow> provided s'"
| p_Compact: "provided s \<Longrightarrow> set names = dom (entries s) \<Longrightarrow> Compact names s = Done s'
     \<Longrightarrow> provided s'"






lemma provided_lenient: "provided lenient"
  unfolding lenient_def by (intro p_Provide p_New)

section \<open>The claims\<close>

subsection \<open>C1: two entries that request each other\<close>

text \<open>
  The container of the test \<^verbatim>\<open>TestDI_CircularDependencyDetection\<close>, for any two distinct
  names and any results computed from what the other slot held.
\<close>

definition mutual :: "string \<Rightarrow> string \<Rightarrow> (nat \<Rightarrow> 'v \<Rightarrow> 'v) \<Rightarrow> (nat \<Rightarrow> 'v \<Rightarrow> 'v) \<Rightarrow> ('c, 'v::zero) weave" where
  "mutual A B f g =
     Provide B (\<lambda>c. MustMake A (\<lambda>p v. Return (Some (g p v))))
       (Provide A (\<lambda>c. MustMake B (\<lambda>p v. Return (Some (f p v)))) New)"

lemma mutual_build:
  assumes "A \<noteq> B" "names = [A, B] \<or> names = [B, A]"
  shows "\<exists>s'. Build (Suc (Suc (Suc (Suc (Suc (Suc n)))))) names (mutual A B f g) = Done (None, s') \<and>
          entries s' = [A \<mapsto> 0, B \<mapsto> 1] \<and>
          dependsOn (heap s' 0) = [B] \<and> dependsOn (heap s' (Suc 0)) = [A] \<and>
          getServiceFunc s' = Passive \<and> wbuilt s'"
  using assms by (auto simp: mutual_def engine_defs fun_eq_iff)

text \<open>
  Claim C1. Let the builders of two distinct names \<open>A\<close> and \<open>B\<close> each request the
  other through \<^verbatim>\<open>MustMake\<close>. Whatever order \<^verbatim>\<open>Build\<close> visits the two entries in, it
  returns success for every bound of at least six nested calls, and afterwards
  \<^verbatim>\<open>HasCircularDependency\<close> reports a cycle whose path contains both names, whatever
  order the graph loops visit the keys in.
\<close>

theorem cycle_tolerance:
  assumes "A \<noteq> B" and "names = [A, B] \<or> names = [B, A]"
    and "names1 = [A, B] \<or> names1 = [B, A]" and "names2 = [A, B] \<or> names2 = [B, A]"
  shows "\<exists>s' :: ('c, 'v::zero) weave. Build (n + 6) names (mutual A B f g) = Done (None, s') \<and>
          (\<exists>path. HasCircularDependency (m + 3) names1 names2 s' = Some (True, path) \<and>
                  A \<in> set path \<and> B \<in> set path)"
proof -
  have n5: "n + 6 = Suc (Suc (Suc (Suc (Suc (Suc n)))))" by simp
  have m3: "m + 3 = Suc (Suc (Suc m))" by simp
  from mutual_build[OF assms(1,2), of n f g] obtain s' :: "('c, 'v) weave" where
    ok: "Build (n + 6) names (mutual A B f g) = Done (None, s')"
    and en: "entries s' = [A \<mapsto> 0, B \<mapsto> 1]"
    and d0: "dependsOn (heap s' 0) = [B]" and d1: "dependsOn (heap s' (Suc 0)) = [A]"
    unfolding n5 by blast
  have deps: "Dependencies (GetDependencyGraph names1 s') = [A \<mapsto> [B], B \<mapsto> [A]]"
    using assms(1) by (auto simp: GetDependencyGraph_def Let_def en d0 d1 fun_eq_iff)
  have "HasCircularDependency (m + 3) names1 names2 s' = Some (True, [A, B, A]) \<or>
        HasCircularDependency (m + 3) names1 names2 s' = Some (True, [B, A, B])"
    unfolding HasCircularDependency_def deps m3 detectCircularDependency_def
    using assms(1,4) by (auto simp: adj_def)
  then have "\<exists>path. HasCircularDependency (m + 3) names1 names2 s' = Some (True, path) \<and>
                  A \<in> set path \<and> B \<in> set path"
    by (elim disjE) simp_all
  with ok show ?thesis by blast
qed

theorem cycle_tolerance_witness:
  "(''A'' :: string) \<noteq> ''B'' \<and>
   (\<exists>s'. Build 6 [''B'', ''A''] (mutual ''A'' ''B'' (\<lambda>p v. v + 10) (\<lambda>p v. v + 20) :: (unit, nat) weave)
            = Done (None, s') \<and>
         (\<exists>path. HasCircularDependency 3 [''A'', ''B''] [''B'', ''A''] s' = Some (True, path) \<and>
                 ''A'' \<in> set path \<and> ''B'' \<in> set path))"
proof -
  have ne: "(''A'' :: string) \<noteq> ''B''" by simp
  from cycle_tolerance[OF ne, of "[''B'', ''A'']" "[''A'', ''B'']" "[''B'', ''A'']" 0
      "\<lambda>p v. v + 10" "\<lambda>p v. v + 20" 0]
  show ?thesis by simp
qed

subsection \<open>C2: acyclic registration sets\<close>

text \<open>
  Claim C2. Start from a container in which nothing is built yet and let \<^verbatim>\<open>Build\<close> succeed.
  If the dependencies recorded during the build contain no cycle, then every entry is
  built and the only value its builder produced is the one its output slot holds, and
  whenever the resolver handed the slot of an entry to a builder, the fields the builder
  saw at that moment are the fields the slot holds in the end, which are what the
  builder of that entry produced: no reference obtained during construction shows
  placeholder contents.
\<close>

theorem acyclic_build_populates_slots:
  assumes fr: "fresh s" and cover: "set names = dom (entries s)"
    and ok: "Build n names s = Done (None, s')"
    and acyclic: "\<not> cyclic s'"
  shows "(\<forall>name a. entries s' name = Some a \<longrightarrow>
            built (heap s' a) \<and> (\<forall>v. Produced a v \<in> set (events s') \<longleftrightarrow> v = instance' (heap s' a)))
       \<and> (\<forall>d e c. Handed d e c \<in> set (events s') \<longrightarrow>
            c = instance' (heap s' e) \<and> Produced e c \<in> set (events s'))"
proof -
  from fr have nw: "\<not> wbuilt s" by (simp add: fresh_def)
  from ok nw have "\<exists>s1. Range_build n names s = Done (None, s1) \<and>
      s' = s1\<lparr>wbuilt := True, events := events s1 @ map ReadyRun (ready s1)\<rparr>"
    unfolding Build_def by (simp split: outcome.splits option.splits prod.splits)
  then obtain s1 where r: "Range_build n names s = Done (None, s1)"
    and s': "s' = s1\<lparr>wbuilt := True, events := events s1 @ map ReadyRun (ready s1)\<rparr>"
    by blast
  from consistent_Range_build[OF r fresh_consistent[OF fr]]
  have c1: "consistent {} s1"
    and all: "\<forall>name \<in> set names. \<forall>a. entries s name = Some a \<longrightarrow> built (heap s1 a)" by simp_all
  have en: "entries s1 = entries s" using extends_Range_build[OF r] by (simp add: extends_def)
  have cy: "cyclic s' = cyclic s1" unfolding s' by (rule cyclic_cong) simp_all
  have ev: "Produced a v \<in> set (events s') \<longleftrightarrow> Produced a v \<in> set (events s1)" for a v
    unfolding s' by auto
  have eh: "Handed d e c \<in> set (events s') \<longleftrightarrow> Handed d e c \<in> set (events s1)" for d e c
    unfolding s' by auto
  have hp: "heap s' = heap s1" unfolding s' by simp
  have A: "built (heap s' a) \<and> (\<forall>v. Produced a v \<in> set (events s') \<longleftrightarrow> v = instance' (heap s' a))"
    if "entries s' name = Some a" for name a
  proof -
    from that have e: "entries s name = Some a" unfolding s' by (simp add: en)
    then have "name \<in> set names" using cover by auto
    with all e have b: "built (heap s1 a)" by blast
    have p1: "Produced a (instance' (heap s1 a)) \<in> set (events s1)"
      using consistent_done[OF c1 b] by simp
    have p2: "v = instance' (heap s1 a)" if "Produced a v \<in> set (events s1)" for v
      using consistent_produced[OF c1 that] by simp
    from b p1 p2 show ?thesis unfolding ev hp by blast
  qed
  have B: "c = instance' (heap s' e) \<and> Produced e c \<in> set (events s')"
    if "Handed d e c \<in> set (events s')" for d e c
  proof -
    from that have "Handed d e c \<in> set (events s1)" by (simp add: eh)
    from consistent_handed[OF c1 this] acyclic cy
    have b: "built (heap s1 e)" and i: "instance' (heap s1 e) = c" by simp_all
    from consistent_done[OF c1 b] i show ?thesis unfolding ev hp by simp
  qed
  from A B show ?thesis by blast
qed

theorem acyclic_build_populates_slots_witness:
  "fresh chain \<and> set [''C'', ''A'', ''B''] = dom (entries chain) \<and>
   (\<exists>s'. Build 10 [''C'', ''A'', ''B''] chain = Done (None, s') \<and> \<not> cyclic s' \<and>
         Handed 2 0 5 \<in> set (events s') \<and> instance' (heap s' 0) = 5 \<and>
         Produced 0 5 \<in> set (events s') \<and> built (heap s' 2))"
proof -
  from chain_run obtain s' where ok: "Build 10 [''C'', ''A'', ''B''] chain = Done (None, s')"
    and en: "entries s' = [''A'' \<mapsto> 0, ''B'' \<mapsto> 1, ''C'' \<mapsto> 2]"
    and d0: "dependsOn (heap s' 0) = []" and d1: "dependsOn (heap s' 1) = [''A'']"
    and d2: "dependsOn (heap s' 2) = [''A'', ''B'']"
    and ev: "events s' = [Invoked 2, Invoked 0, Produced 0 5, Handed 2 0 5, Invoked 1, Handed 1 0 5,
                     Produced 1 15, Handed 2 1 15, Produced 2 21]"
    by blast
  have ac: "\<not> cyclic s'"
  proof (rule ranked_acyclic)
    fix d e assume "(d, e) \<in> edges s'"
    then show "e < d"
      using d0 d1 d2 by (auto simp: edges_def en ran_def split: if_splits)
  qed
  have h: "Handed 2 0 5 \<in> set (events s')" by (simp add: ev)
  have c: "entries s' ''C'' = Some 2" by (simp add: en)
  from acyclic_build_populates_slots[OF chain_fresh chain_keys ok ac] h c
  have "5 = instance' (heap s' 0) \<and> Produced 0 5 \<in> set (events s')" and "built (heap s' 2)"
    by blast+
  with chain_fresh chain_keys ok ac h show ?thesis by auto
qed

subsection \<open>C3: normalising and deduplicating cycles\<close>

text \<open>
  Claim C3 says no cycle is reported twice up to rotation. \<^verbatim>\<open>findAllCyclesFromNode\<close>
  returns a cycle with its first node repeated at the end, and \<^verbatim>\<open>normalizeCycle\<close>
  rotates that whole list, the repeated node included: \<open>B, C, A, B\<close> becomes
  \<open>A, B, B, C\<close> while \<open>A, B, C, A\<close> stays, so the two get different keys. For the graph
  of the claim (the container of the test, built first) the enumeration returns five
  lists: the cycle through \<open>A\<close>, \<open>B\<close>, \<open>C\<close> three times, once per root it was found
  from, and the cycle through \<open>B\<close>, \<open>D\<close> twice.
\<close>

theorem same_cycle_reported_once_per_root:
  "map_outcome (\<lambda>(r, s). (r, GetAllCircularDependencies 8
        [''serviceA'', ''serviceB'', ''serviceC'', ''serviceD'']
        [''serviceA'', ''serviceB'', ''serviceC'', ''serviceD''] s))
     (Build 12 [''serviceA'', ''serviceB'', ''serviceC'', ''serviceD''] complex)
   = Done (None, Some
      [[''serviceA'', ''serviceB'', ''serviceC'', ''serviceA''],
       [''serviceB'', ''serviceD'', ''serviceB''],
       [''serviceA'', ''serviceB'', ''serviceB'', ''serviceC''],
       [''serviceA'', ''serviceB'', ''serviceC'', ''serviceC''],
       [''serviceB'', ''serviceD'', ''serviceD'']])
   \<and> normalizeCycle [''B'', ''C'', ''A'', ''B''] = [''A'', ''B'', ''B'', ''C'']
   \<and> deduplicateCycles [[''A'', ''B'', ''C'', ''A''], [''B'', ''C'', ''A'', ''B'']]
       = [[''A'', ''B'', ''C'', ''A''], [''A'', ''B'', ''B'', ''C'']]"
  by code_simp

subsection \<open>C4: the resolver after a build\<close>




subsection \<open>C5: no partly built container is returned\<close>



subsection \<open>C6: the two maps of the graph are transposes\<close>

lemma reachable_Provide: "reachable s \<Longrightarrow> reachable (Provide name b s)"
  unfolding Provide_def by (rule r_assign)

lemma chain_reachable: "reachable chain"
  unfolding chain_def by (intro reachable_Provide r_New)

text \<open>
  Claim C6. For every container reached through the operations of the package, and
  every order in which the inverting loop may visit the keys (each key once):
  \<open>M\<close> occurs in the dependencies of \<open>N\<close> exactly as often as \<open>N\<close> occurs in the
  dependents of \<open>M\<close>, every list of either map is sorted, and both maps have
  exactly the registered names as keys.
\<close>

theorem graph_symmetry:
  assumes "reachable s" "distinct names" "set names = dom (entries s)"
  shows "(\<forall>N M. count_list (adj (Dependencies (GetDependencyGraph names s)) N) M
              = count_list (adj (Dependents (GetDependencyGraph names s)) M) N)
       \<and> (\<forall>N. sorted (adj (Dependencies (GetDependencyGraph names s)) N)
              \<and> sorted (adj (Dependents (GetDependencyGraph names s)) N))
       \<and> dom (Dependencies (GetDependencyGraph names s)) = dom (entries s)
       \<and> dom (Dependents (GetDependencyGraph names s)) = dom (entries s)"
  using graph_symmetry_registered[OF assms(2,3) reachable_deps_registered[OF assms(1)]] .

theorem graph_symmetry_witness:
  "\<exists>s. Build 10 [''C'', ''A'', ''B''] chain = Done (None, s) \<and> reachable s \<and>
       distinct [''C'', ''B'', ''A''] \<and> set [''C'', ''B'', ''A''] = dom (entries s) \<and>
       Dependencies (GetDependencyGraph [''C'', ''B'', ''A''] s) ''C'' = Some [''A'', ''B''] \<and>
       Dependents (GetDependencyGraph [''C'', ''B'', ''A''] s) ''A'' = Some [''B'', ''C''] \<and>
       count_list (adj (Dependents (GetDependencyGraph [''C'', ''B'', ''A''] s)) ''B'') ''C'' = 1"
proof -
  from chain_run obtain s where ok: "Build 10 [''C'', ''A'', ''B''] chain = Done (None, s)"
    and en: "entries s = [''A'' \<mapsto> 0, ''B'' \<mapsto> 1, ''C'' \<mapsto> 2]"
    and d0: "dependsOn (heap s 0) = []" and d1: "dependsOn (heap s 1) = [''A'']"
    and d2: "dependsOn (heap s 2) = [''A'', ''B'']"
    by blast
  note d1 = d1[unfolded One_nat_def]
  have re: "reachable s" using chain_reachable ok by (rule r_Build)
  have di: "distinct [''C'', ''B'', ''A'']" by simp
  have ks: "set [''C'', ''B'', ''A''] = dom (entries s)" by (auto simp: en)
  have g1: "Dependencies (GetDependencyGraph [''C'', ''B'', ''A''] s) ''C'' = Some [''A'', ''B'']"
    by (simp add: GetDependencyGraph_def Let_def en d2)
  have g2: "Dependents (GetDependencyGraph [''C'', ''B'', ''A''] s) ''A'' = Some [''B'', ''C'']"
    by (simp add: GetDependencyGraph_def Let_def en d0 d1 d2 adj_def)
  from graph_symmetry[OF re di ks]
  have "count_list (adj (Dependencies (GetDependencyGraph [''C'', ''B'', ''A''] s)) ''C'') ''B''
      = count_list (adj (Dependents (GetDependencyGraph [''C'', ''B'', ''A''] s)) ''B'') ''C''"
    by blast
  then have "count_list (adj (Dependents (GetDependencyGraph [''C'', ''B'', ''A''] s)) ''B'') ''C'' = 1"
    by (simp add: g1 adj_def)
  with ok re di ks g1 g2 show ?thesis by blast
qed

subsection \<open>C7: a second build does nothing\<close>

text \<open>
  Claim C7. When the built flag is set, \<^verbatim>\<open>Build\<close> returns success and leaves the
  container as it is; the trace is part of the state, so no builder is invoked and no
  ready callback is run. A successful \<^verbatim>\<open>Build\<close> sets the flag, so a second call
  right after it, with any bound and any iteration order, returns success in the same
  state.
\<close>

theorem Build_idempotent:
  "(wbuilt s \<longrightarrow> Build n names s = Done (None, s)) \<and>
   (Build n names s = Done (None, s') \<longrightarrow> Build m names' s' = Done (None, s'))"
  using Build_success_wbuilt[of n names s s'] by (simp add: Build_def)


theorem Build_idempotent_witness:
  "\<exists>s'. Build 10 [''C'', ''A'', ''B''] chain = Done (None, s') \<and>
        Build 10 [''C'', ''A'', ''B''] s' = Done (None, s') \<and> length (events s') = 9"
proof -
  from chain_run obtain s' where h: "Build 10 [''C'', ''A'', ''B''] chain = Done (None, s')"
    and e: "length (events s') = 9" by auto
  from Build_idempotent[of chain 10 "[''C'', ''A'', ''B'']" s' 10 "[''C'', ''A'', ''B'']"] h e
  show ?thesis by blast
qed

subsection \<open>C8: how a failure ends the build\<close>

text \<open>
  Claim C8 as stated fails in its first cause of failure: a request for a name that has
  no entry is answered to the requesting builder and aborts nothing. The builder below
  asks for \<open>X\<close>, which was never registered, and returns 7 when the answer is an error:
  \<^verbatim>\<open>Build\<close> returns success, sets the built flag, and the slot holds 7.
\<close>

theorem missing_service_does_not_abort_build:
  "map_outcome (\<lambda>(r, s). (r, wbuilt s, instance' (heap s 0))) (Build 3 [''A''] lenient)
   = Done (None, True, 7)"
  by (simp add: lenient_def engine_defs numeral_eq_Suc)

text \<open>
  Claim C8, amended. A request for a name that has no entry is answered to the
  requesting builder with "not found" for that name and changes nothing in the
  container, under either resolver. What happens next is the builder's decision: after
  \<^verbatim>\<open>TryMake\<close> it runs on with the failure reported, after \<^verbatim>\<open>MustMake\<close> it panics.
  \<^verbatim>\<open>Build\<close> never returns a "not found" failure.
\<close>

theorem missing_name_is_answered_to_the_builder:
  assumes "entries s m = None"
  shows "GetService (Suc n) m s = Done (Inl (NotFound m), s) \<and>
         run (Suc (Suc n)) (TryMake m k) s = run (Suc n) (k None) s \<and>
         run (Suc (Suc n)) (MustMake m k') s = Panicked \<and>
         (\<forall>j names r s'. Build j names s = Done (r, s') \<longrightarrow> (\<forall>x. r \<noteq> Some (NotFound x)))"
proof -
  have g: "GetService (Suc n) m s = Done (Inl (NotFound m), s)"
    using assms by (rule GetService_absent)
  have t: "run (Suc (Suc n)) (TryMake m k) s = run (Suc n) (k None) s"
    by (simp add: TryMake_def g del: GetService.simps)
  have mm: "run (Suc (Suc n)) (MustMake m k') s = Panicked"
    by (simp add: MustMake_def g del: GetService.simps)
  have b: "r \<noteq> Some (NotFound x)" if "Build j names s = Done (r, s')" for j names r s' x
  proof
    assume e: "r = Some (NotFound x)"
    from Build_failure_Range[OF that[unfolded e]]
    have "Range_build j names s = Done (Some (NotFound x), s')" by simp
    from Range_build_failure[OF this] obtain name a s1 where
      "build j name a s1 = Done (Some (NotFound x), s')" by blast
    from build_failure[OF this] show False by simp
  qed
  from g t mm b show ?thesis by blast
qed

theorem missing_name_is_answered_to_the_builder_witness:
  "entries lenient ''X'' = None \<and>
   GetService 1 ''X'' lenient = Done (Inl (NotFound ''X''), lenient) \<and>
   GetService 1 ''X'' (lenient\<lparr>getServiceFunc := Recording 0\<rparr>)
     = Done (Inl (NotFound ''X''), lenient\<lparr>getServiceFunc := Recording 0\<rparr>) \<and>
   map_outcome fst (Build 3 [''A''] lenient) = Done None"
proof -
  have e: "entries lenient ''X'' = None" by (simp add: lenient_def engine_defs)
  then have e2: "entries (lenient\<lparr>getServiceFunc := Recording 0\<rparr>) ''X'' = None" by simp
  have b: "map_outcome fst (Build 3 [''A''] lenient) = Done None"
    by (simp add: lenient_def engine_defs numeral_eq_Suc)
  from missing_name_is_answered_to_the_builder[OF e, of 0]
       missing_name_is_answered_to_the_builder[OF e2, of 0] e b
  show ?thesis by simp
qed

subsection \<open>C9: compaction and extraction\<close>

text \<open>
  Claim C9. While the built flag is unset, as it is in a new container, \<^verbatim>\<open>Compact\<close>
  and \<^verbatim>\<open>Extract\<close> panic. After a successful \<^verbatim>\<open>Build\<close>, \<^verbatim>\<open>Compact\<close> returns, keeps
  the registered names, and \<^verbatim>\<open>GetDependencyGraph\<close> then gives every registered name an
  empty list of dependencies and an empty list of dependents.
\<close>

theorem compaction_degradation:
  "(\<not> wbuilt s \<longrightarrow> Compact names s = Panicked \<and> Extract names s = Panicked)
   \<and> \<not> wbuilt (New :: ('c, 'v::zero) weave)
   \<and> (Build n names0 s0 = Done (None, s) \<longrightarrow> set names = dom (entries s) \<longrightarrow>
        (\<exists>s'. Compact names s = Done s' \<and> entries s' = entries s \<and>
           (\<forall>names' name.
              Dependencies (GetDependencyGraph names' s') name
                = (if entries s name = None then None else Some [])
            \<and> Dependents (GetDependencyGraph names' s') name
                = (if entries s name = None then None else Some []))))"
proof -
  have a: "\<not> wbuilt s \<longrightarrow> Compact names s = Panicked \<and> Extract names s = Panicked"
    by (simp add: Compact_def Extract_def)
  have b: "\<not> wbuilt (New :: ('c, 'v::zero) weave)" by (simp add: New_def)
  have c: "\<exists>s'. Compact names s = Done s' \<and> entries s' = entries s \<and>
           (\<forall>names' name.
              Dependencies (GetDependencyGraph names' s') name
                = (if entries s name = None then None else Some [])
            \<and> Dependents (GetDependencyGraph names' s') name
                = (if entries s name = None then None else Some []))"
    if ok: "Build n names0 s0 = Done (None, s)" and cover: "set names = dom (entries s)"
  proof -
    let ?s' = "Range_compact names (s\<lparr>ctx := None, ready := []\<rparr>)"
    have w: "wbuilt s" using ok by (rule Build_success_wbuilt)
    have cl: "entries s name = Some a \<Longrightarrow> dependsOn (heap ?s' a) = []" for name a
      using cover Range_compact_clears[of "s\<lparr>ctx := None, ready := []\<rparr>" name a names] by auto
    let ?deps = "\<lambda>name. case entries ?s' name of
      None \<Rightarrow> None | Some a \<Rightarrow> Some (dependsOn (heap ?s' a))"
    have e: "adj ?deps n = []" for n
      using cl by (auto simp: adj_def split: option.splits)
    have "Compact names s = Done ?s'" using w by (simp add: Compact_def)
    moreover have "entries ?s' = entries s" by simp
    moreover have "Dependencies (GetDependencyGraph names' ?s') name
                = (if entries s name = None then None else Some [])" for names' name
      using cl by (auto simp: GetDependencyGraph_def Let_def split: option.splits)
    moreover have "Dependents (GetDependencyGraph names' ?s') name
                = (if entries s name = None then None else Some [])" for names' name
      using e by (auto simp: GetDependencyGraph_def Let_def invert_no_edges split: option.splits)
    ultimately show ?thesis by blast
  qed
  from a b c show ?thesis by blast
qed

theorem compaction_degradation_witness:
  "\<not> wbuilt chain \<and> Compact [''A'', ''B'', ''C''] chain = Panicked \<and>
   Extract [''A'', ''B'', ''C''] chain = Panicked \<and>
   (\<exists>s. Build 10 [''C'', ''A'', ''B''] chain = Done (None, s) \<and>
        set [''A'', ''B'', ''C''] = dom (entries s) \<and>
        Dependencies (GetDependencyGraph [''A'', ''B'', ''C''] s) ''C'' = Some [''A'', ''B''] \<and>
        (\<exists>s'. Compact [''A'', ''B'', ''C''] s = Done s' \<and>
              Dependencies (GetDependencyGraph [''A'', ''B'', ''C''] s') ''C'' = Some [] \<and>
              Dependents (GetDependencyGraph [''A'', ''B'', ''C''] s') ''A'' = Some [] \<and>
              Dependents (GetDependencyGraph [''A'', ''B'', ''C''] s') ''X'' = None))"
proof -
  have nb: "\<not> wbuilt chain" using chain_fresh by (simp add: fresh_def)
  from chain_run obtain s where ok: "Build 10 [''C'', ''A'', ''B''] chain = Done (None, s)"
    and en: "entries s = [''A'' \<mapsto> 0, ''B'' \<mapsto> 1, ''C'' \<mapsto> 2]"
    and d2: "dependsOn (heap s 2) = [''A'', ''B'']"
    by blast
  have keys: "set [''A'', ''B'', ''C''] = dom (entries s)" by (auto simp: en)
  have before: "Dependencies (GetDependencyGraph [''A'', ''B'', ''C''] s) ''C'' = Some [''A'', ''B'']"
    by (simp add: GetDependencyGraph_def Let_def en d2)
  from compaction_degradation[of chain "[''A'', ''B'', ''C'']" 10 "[''C'', ''A'', ''B'']" chain] nb
  have p: "Compact [''A'', ''B'', ''C''] chain = Panicked" "Extract [''A'', ''B'', ''C''] chain = Panicked"
    by blast+
  from compaction_degradation[of s "[''A'', ''B'', ''C'']" 10 "[''C'', ''A'', ''B'']" chain] ok keys
  obtain s' where c: "Compact [''A'', ''B'', ''C''] s = Done s'"
    and g: "\<And>names' name. Dependencies (GetDependencyGraph names' s') name
                = (if entries s name = None then None else Some [])"
           "\<And>names' name. Dependents (GetDependencyGraph names' s') name
                = (if entries s name = None then None else Some [])"
    by blast
  have "Dependencies (GetDependencyGraph [''A'', ''B'', ''C''] s') ''C'' = Some []"
       "Dependents (GetDependencyGraph [''A'', ''B'', ''C''] s') ''A'' = Some []"
       "Dependents (GetDependencyGraph [''A'', ''B'', ''C''] s') ''X'' = None"
    by (simp_all add: g en)
  with nb p ok keys before c show ?thesis by blast
qed

subsection \<open>C10: the path reported with a cycle\<close>

lemma dfs_roots_shape:
  "dfs_roots n dependencies names st = Some (True, cycle) \<Longrightarrow> on_path N st \<Longrightarrow>
     set names \<subseteq> N \<Longrightarrow> (\<forall>k. set (adj dependencies k) \<subseteq> N) \<Longrightarrow> closed_walk N cycle"
proof (induction names arbitrary: st)
  case Nil
  then show ?case by simp
next
  case (Cons node names)
  obtain visited visiting path where st: "st = (visited, visiting, path)" by (cases st)
  show ?case
  proof (cases "visited node")
    case True
    with Cons.prems st have "dfs_roots n dependencies names st = Some (True, cycle)" by simp
    from Cons.IH[OF this Cons.prems(2)] Cons.prems(3,4) show ?thesis by simp
  next
    case False
    with Cons.prems(1) st obtain res st' where
      d: "dfs n dependencies node st = Some (res, st')"
      by (auto split: option.splits)
    from dfs_shape(1)[of n dependencies node st res st' N] d Cons.prems(2,3,4)
    have post: "if fst res then closed_walk N (snd res)
                else on_path N st' \<and> snd (snd st') = snd (snd st)" by simp
    show ?thesis
    proof (cases "fst res")
      case True
      with Cons.prems(1) st False d have "snd res = cycle"
        by (cases res) (auto split: bool.splits)
      with post True show ?thesis by simp
    next
      case nf: False
      with Cons.prems(1) st False d have "dfs_roots n dependencies names st' = Some (True, cycle)"
        by (cases res) (auto split: bool.splits)
      from Cons.IH[OF this] post nf Cons.prems(3,4) show ?thesis by simp
    qed
  qed
qed

text \<open>
  Claim C10. For every dependency map, visited in any order of its keys: when
  \<^verbatim>\<open>detectCircularDependency\<close> reports a cycle, the returned path is not empty, has at
  least two elements, begins and ends with the same name, and each of its names is a key
  of the map or occurs in one of its lists.
\<close>

theorem detected_cycle_shape:
  assumes "detectCircularDependency n names dependencies = Some (True, cycle)"
    and "set names = dom dependencies"
  shows "cycle \<noteq> [] \<and> 2 \<le> length cycle \<and> hd cycle = last cycle \<and>
         (\<forall>x \<in> set cycle. x \<in> dom dependencies \<or>
                             (\<exists>k ds. dependencies k = Some ds \<and> x \<in> set ds))"
proof -
  let ?N = "nodes names dependencies"
  have "on_path ?N ((\<lambda>_. False), (\<lambda>_. False), [])" by (simp add: on_path_def)
  moreover have "set names \<subseteq> ?N" by (auto simp: nodes_def)
  moreover have "\<forall>k. set (adj dependencies k) \<subseteq> ?N" by (auto simp: nodes_def)
  ultimately have cw: "closed_walk ?N cycle"
    using assms(1) unfolding detectCircularDependency_def by (rule dfs_roots_shape[rotated])
  have "x \<in> dom dependencies \<or> (\<exists>k ds. dependencies k = Some ds \<and> x \<in> set ds)"
    if "x \<in> ?N" for x
    using that assms(2) by (auto simp: nodes_def adj_def split: option.splits)
  with cw show ?thesis by (auto simp: closed_walk_def)
qed

theorem detected_cycle_shape_witness:
  "detectCircularDependency 5 [''A'', ''B''] [''A'' \<mapsto> [''B''], ''B'' \<mapsto> [''A'']]
     = Some (True, [''A'', ''B'', ''A''])
   \<and> set [''A'', ''B''] = dom [''A'' \<mapsto> [''B''], ''B'' \<mapsto> [''A'']]
   \<and> 2 \<le> length [''A'', ''B'', ''A''] \<and> hd [''A'', ''B'', ''A''] = last [''A'', ''B'', ''A'']"
proof -
  have r: "detectCircularDependency 5 [''A'', ''B''] [''A'' \<mapsto> [''B''], ''B'' \<mapsto> [''A'']]
     = Some (True, [''A'', ''B'', ''A''])"
    by (simp add: detectCircularDependency_def adj_def numeral_eq_Suc)
  have k: "set [''A'', ''B''] = dom [''A'' \<mapsto> [''B''], ''B'' \<mapsto> [''A'']]" by auto
  from detected_cycle_shape[OF r k] r k show ?thesis by blast
qed

section \<open>The bound on nested calls\<close>

lemma fuel_step:
  "(\<forall>name a (s :: ('c, 'v) weave). build n name a s \<noteq> OutOfFuel \<longrightarrow>
        build (Suc n) name a s = build n name a s) \<and>
   (\<forall>f (s :: ('c, 'v) weave). run n f s \<noteq> OutOfFuel \<longrightarrow> run (Suc n) f s = run n f s) \<and>
   (\<forall>name (s :: ('c, 'v) weave). GetService n name s \<noteq> OutOfFuel \<longrightarrow>
        GetService (Suc n) name s = GetService n name s)"
proof (induction n)
  case 0
  show ?case by simp
next
  case (Suc n)
  note IHB = Suc[THEN conjunct1, rule_format]
  note IHR = Suc[THEN conjunct2, THEN conjunct1, rule_format]
  note IHG = Suc[THEN conjunct2, THEN conjunct2, rule_format]
  have B: "build (Suc (Suc n)) name a s = build (Suc n) name a s"
    if "build (Suc n) name a s \<noteq> OutOfFuel" for name a and s :: "('c, 'v) weave"
  proof (cases "built (heap s a)")
    case True
    then show ?thesis by simp
  next
    case False
    show ?thesis
    proof (cases "builder (heap s a)")
      case None
      with False show ?thesis by simp
    next
      case (Some b)
      let ?s1 = "emit (Invoked a) (setBuilt a True (s\<lparr>getServiceFunc := Recording a\<rparr>))"
      from that False Some have "run n (b (ctx s)) ?s1 \<noteq> OutOfFuel"
        by (auto simp: Let_def split: outcome.splits)
      from IHR[OF this] False Some show ?thesis by (simp add: Let_def)
    qed
  qed
  have R: "run (Suc (Suc n)) f s = run (Suc n) f s"
    if "run (Suc n) f s \<noteq> OutOfFuel" for f and s :: "('c, 'v) weave"
  proof (cases f)
    case (Request name k)
    from that Request have g: "GetService n name s \<noteq> OutOfFuel" by (auto split: outcome.splits)
    note g1 = IHG[OF g]
    show ?thesis
    proof (cases "GetService n name s")
      case (Done x)
      obtain r s1 where x: "x = (r, s1)" by (cases x)
      from that Request Done x have "run n (k r) s1 \<noteq> OutOfFuel" by auto
      from IHR[OF this] g1 Done x Request show ?thesis by simp
    qed (use g g1 Request in simp_all)
  qed simp_all
  have G: "GetService (Suc (Suc n)) name s = GetService (Suc n) name s"
    if "GetService (Suc n) name s \<noteq> OutOfFuel" for name and s :: "('c, 'v) weave"
  proof (cases "getServiceFunc s")
    case Passive
    then show ?thesis by simp
  next
    case (Recording d)
    show ?thesis
    proof (cases "entries s name")
      case None
      with Recording show ?thesis by simp
    next
      case (Some e)
      show ?thesis
      proof (cases "built (heap s e)")
        case True
        with Recording Some show ?thesis by (simp add: Let_def)
      next
        case False
        with that Recording Some have "build n name e (appendDep d name s) \<noteq> OutOfFuel"
          by (auto simp: Let_def split: outcome.splits)
        from IHB[OF this] False Recording Some show ?thesis by (simp add: Let_def)
      qed
    qed
  qed
  from B R G show ?case by blast
qed

lemma build_fuel_mono:
  "build n name a s \<noteq> OutOfFuel \<Longrightarrow> build (n + k) name a s = build n name a s"
proof (induction k)
  case 0
  show ?case by simp
next
  case (Suc k)
  then have "build (n + k) name a s \<noteq> OutOfFuel" by simp
  from fuel_step[of "n + k", THEN conjunct1, rule_format, OF this] Suc show ?case by simp
qed

lemma Range_build_fuel_mono:
  "Range_build n names s \<noteq> OutOfFuel \<Longrightarrow> Range_build (n + k) names s = Range_build n names s"
proof (induction names arbitrary: s)
  case Nil
  show ?case by simp
next
  case (Cons name names)
  show ?case
  proof (cases "entries s name")
    case None
    with Cons show ?thesis by simp
  next
    case (Some a)
    from Cons.prems Some have b: "build n name a s \<noteq> OutOfFuel" by (auto split: outcome.splits)
    note b1 = build_fuel_mono[OF b, of k]
    show ?thesis
    proof (cases "build n name a s")
      case (Done x)
      obtain r s1 where x: "x = (r, s1)" by (cases x)
      show ?thesis
      proof (cases r)
        case None
        with Cons.prems Some Done x have "Range_build n names s1 \<noteq> OutOfFuel" by simp
        from Cons.IH[OF this] b1 Some Done x None show ?thesis by simp
      next
        case (Some err)
        with b1 \<open>entries s name = Some a\<close> Done x show ?thesis by simp
      qed
    qed (use b b1 Some in simp_all)
  qed
qed

text \<open>
  Once the bound is large enough for \<^verbatim>\<open>Build\<close> to finish, a larger bound gives the
  same outcome: what the theorems say of a finished \<^verbatim>\<open>Build\<close> does not depend on it.
\<close>

theorem Build_bound_irrelevant:
  assumes "Build n names s \<noteq> OutOfFuel"
  shows "Build (n + k) names s = Build n names s"
proof (cases "wbuilt s")
  case True
  then show ?thesis by (simp add: Build_def)
next
  case False
  with assms have "Range_build n names s \<noteq> OutOfFuel"
    by (auto simp: Build_def split: outcome.splits)
  from Range_build_fuel_mono[OF this, of k] False show ?thesis by (simp add: Build_def)
qed

theorem Build_bound_irrelevant_witness:
  "Build 6 [''C'', ''A'', ''B''] chain = OutOfFuel \<and>
   Build 7 [''C'', ''A'', ''B''] chain \<noteq> OutOfFuel \<and>
   Build (7 + 93) [''C'', ''A'', ''B''] chain = Build 7 [''C'', ''A'', ''B''] chain"
proof -
  have l: "Build 6 [''C'', ''A'', ''B''] chain = OutOfFuel"
    by (simp add: chain_def engine_defs numeral_eq_Suc)
  have h: "Build 7 [''C'', ''A'', ''B''] chain \<noteq> OutOfFuel"
    by (simp add: chain_def engine_defs numeral_eq_Suc)
  from Build_bound_irrelevant[OF h, of 93] l h show ?thesis by blast
qed

end
